theory Spec2Isabelle
  imports Main "HOL-Library.Word" "HOL-Library.Multiset"
begin

section \<open>Integers and formatting\<close>

text \<open>
  Go's \<^verbatim>\<open>int\<close> is a signed 64-bit integer on the platforms the repository targets
  (macOS and Linux on 64-bit hardware); \<open>+\<close> and \<open>*\<close> wrap around, \<open>sint\<close> reads the
  two's-complement value, \<open>\<le>s\<close> is the signed comparison.
\<close>

type_synonym goint = "64 word"

text \<open>The verb \<^verbatim>\<open>%d\<close> of \<^verbatim>\<open>fmt.Sprintf\<close>: the signed decimal numeral.\<close>

fun digit_char :: "nat \<Rightarrow> char" where
  "digit_char n = char_of (48 + n)"

fun show_nat :: "nat \<Rightarrow> string" where
  "show_nat n = (if n < 10 then [digit_char n] else show_nat (n div 10) @ [digit_char (n mod 10)])"

declare show_nat.simps [simp del]

definition show_int :: "int \<Rightarrow> string" where
  "show_int i = (if i < 0 then CHR ''-'' # show_nat (nat (- i)) else show_nat (nat i))"

definition fmt_d :: "goint \<Rightarrow> string" where
  "fmt_d w = show_int (sint w)"

section \<open>Task\<close>

record Task =
  ID :: goint
  Description :: string
  DataValue :: goint

text \<open>\<^verbatim>\<open>Task.String\<close>: \<^verbatim>\<open>"Task[id=%d, description='%s', data=%d]"\<close>.\<close>

definition Task_String :: "Task \<Rightarrow> string" where
  "Task_String t =
     ''Task[id='' @ fmt_d (ID t) @ '', description='' @ [CHR 0x27] @ Description t @ [CHR 0x27]
       @ '', data='' @ fmt_d (DataValue t) @ '']''"

text \<open>The zero value \<^verbatim>\<open>Task{}\<close>, which a receive from a closed, drained channel yields.\<close>

definition zero_Task :: Task where
  "zero_Task = \<lparr>ID = 0, Description = [], DataValue = 0\<rparr>"

section \<open>Channels and the TaskQueue\<close>

text \<open>
  A buffered Go channel: the buffered elements (oldest first), the capacity given to
  \<^verbatim>\<open>make\<close>, and whether \<^verbatim>\<open>close\<close> has been called. A channel operation either
  returns, blocks the calling goroutine (the state is unchanged and the operation is
  retried when the goroutine is scheduled again), or panics.

  A send blocks when the buffer is full. The direct hand-over of a value to a receiver
  that is already waiting is not part of the model: in this program every send happens
  during preload, before any receiver exists.
\<close>

datatype 'a outcome = Blocks | Panics | Returns 'a

record 'a chan =
  buf :: "'a list"
  cap :: nat
  closed :: bool

definition chan_make :: "goint \<Rightarrow> 'a chan outcome" where
  "chan_make n = (if n <s 0 then Panics else Returns \<lparr>buf = [], cap = unat n, closed = False\<rparr>)"

definition chan_send :: "'a chan \<Rightarrow> 'a \<Rightarrow> 'a chan outcome" where
  "chan_send c x =
     (if closed c then Panics
      else if length (buf c) < cap c then Returns (c\<lparr>buf := buf c @ [x]\<rparr>)
      else Blocks)"

definition chan_recv :: "'a \<Rightarrow> 'a chan \<Rightarrow> (('a \<times> bool) \<times> 'a chan) outcome" where
  "chan_recv zero c =
     (case buf c of
        x # xs \<Rightarrow> Returns ((x, True), c\<lparr>buf := xs\<rparr>)
      | [] \<Rightarrow> if closed c then Returns ((zero, False), c) else Blocks)"

definition chan_close :: "'a chan \<Rightarrow> 'a chan outcome" where
  "chan_close c = (if closed c then Panics else Returns (c\<lparr>closed := True\<rparr>))"

type_synonym TaskQueue = "Task chan"

definition NewTaskQueue :: "goint \<Rightarrow> TaskQueue outcome" where
  "NewTaskQueue capacity = chan_make capacity"

definition AddTask :: "TaskQueue \<Rightarrow> Task \<Rightarrow> TaskQueue outcome" where
  "AddTask tq task = chan_send tq task"

definition GetTask :: "TaskQueue \<Rightarrow> ((Task \<times> bool) \<times> TaskQueue) outcome" where
  "GetTask tq = chan_recv zero_Task tq"

definition TaskQueue_Close :: "TaskQueue \<Rightarrow> TaskQueue outcome" where
  "TaskQueue_Close tq = chan_close tq"

section \<open>Files, ResultWriter and Logger\<close>

text \<open>
  A file is the list of the byte strings written to it, one entry per successful write
  call, and whether it has been closed. Whether a write to an open file succeeds is
  decided by the operating system: the first argument of \<open>file_Write\<close> is \<open>None\<close>
  when it succeeds and \<open>Some err\<close> when it fails with the error message \<open>err\<close>.
  A failed write leaves the content as it was. Errors are their message strings
  (what \<^verbatim>\<open>%v\<close> and \<^verbatim>\<open>%w\<close> print). \<^verbatim>\<open>ResultWriter\<close> and \<^verbatim>\<open>Logger\<close> hold
  their mutex for the whole of a call, so a call is one step of the program.
\<close>

record osfile =
  content :: "string list"
  fclosed :: bool

definition os_Create :: osfile where
  "os_Create = \<lparr>content = [], fclosed = False\<rparr>"

definition file_Write :: "string option \<Rightarrow> osfile \<Rightarrow> string \<Rightarrow> string option \<times> osfile" where
  "file_Write oserr f bytes =
     (if fclosed f then (Some ''file already closed'', f)
      else case oserr of
             Some err \<Rightarrow> (Some err, f)
           | None \<Rightarrow> (None, f\<lparr>content := content f @ [bytes]\<rparr>))"

definition file_Close :: "osfile \<Rightarrow> string option \<times> osfile" where
  "file_Close f =
     (if fclosed f then (Some ''file already closed'', f) else (None, f\<lparr>fclosed := True\<rparr>))"

record ResultWriter =
  rw_file :: osfile

definition NewResultWriter :: "string option \<Rightarrow> string + ResultWriter" where
  "NewResultWriter oserr =
     (case oserr of
        Some err \<Rightarrow> Inl (''failed to create results file: '' @ err)
      | None \<Rightarrow> Inr \<lparr>rw_file = os_Create\<rparr>)"

text \<open>\<^verbatim>\<open>WriteResult\<close> returns the wrapped error of \<^verbatim>\<open>fmt.Fprintln\<close>, or nil.\<close>

definition WriteResult :: "string option \<Rightarrow> ResultWriter \<Rightarrow> string \<Rightarrow> string option \<times> ResultWriter" where
  "WriteResult oserr rw result =
     (case file_Write oserr (rw_file rw) (result @ ''\<newline>'') of
        (Some err, f) \<Rightarrow> (Some (''failed to write result: '' @ err), rw\<lparr>rw_file := f\<rparr>)
      | (None, f) \<Rightarrow> (None, rw\<lparr>rw_file := f\<rparr>))"

definition ResultWriter_Close :: "ResultWriter \<Rightarrow> string option \<times> ResultWriter" where
  "ResultWriter_Close rw = (case file_Close (rw_file rw) of (err, f) \<Rightarrow> (err, rw\<lparr>rw_file := f\<rparr>))"

record Logger =
  log_file :: osfile

definition NewLogger :: "string option \<Rightarrow> string + Logger" where
  "NewLogger oserr =
     (case oserr of
        Some err \<Rightarrow> Inl (''failed to create log file: '' @ err)
      | None \<Rightarrow> Inr \<lparr>log_file = os_Create\<rparr>)"

text \<open>
  \<^verbatim>\<open>Logger.Log\<close> has no result. It takes the formatted time of the call, writes the
  entry, and on a failed write prints to standard error through \<^verbatim>\<open>log.Printf\<close>
  (whose own date prefix is left out). The model returns the logger and the lines
  printed to standard error.
\<close>

definition Log :: "string \<Rightarrow> string option \<Rightarrow> Logger \<Rightarrow> string \<Rightarrow> Logger \<times> string list" where
  "Log timestamp oserr l message =
     (let logEntry = ''['' @ timestamp @ ''] '' @ message @ ''\<newline>'' in
      case file_Write oserr (log_file l) logEntry of
        (Some err, f) \<Rightarrow> (l\<lparr>log_file := f\<rparr>, [''ERROR: Failed to write log: '' @ err @ ''\<newline>''])
      | (None, f) \<Rightarrow> (l\<lparr>log_file := f\<rparr>, []))"

definition Logger_Close :: "Logger \<Rightarrow> string option \<times> Logger" where
  "Logger_Close l = (case file_Close (log_file l) of (err, f) \<Rightarrow> (err, l\<lparr>log_file := f\<rparr>))"

section \<open>Worker\<close>

text \<open>
  The control points of \<^verbatim>\<open>Worker.Run\<close>, one per operation on a shared object; the
  locals \<^verbatim>\<open>task\<close>, \<^verbatim>\<open>result\<close> and \<^verbatim>\<open>err\<close> that are live at a point are its arguments.
\<close>

datatype wpc =
    WStart
  | WFetch
  | WDrainLog
  | WProcLog Task
  | WCompute Task
  | WComputeErrLog Task string
  | WEmit Task string
  | WEmitErrLog Task string
  | WCompleteLog Task
  | WFinishLog
  | WDeferDone
  | WExit

record Worker =
  Worker_ID :: goint
  wpc :: wpc
  tasksProcessed :: goint

text \<open>
  \<^verbatim>\<open>processTask\<close>: the sleep of 50 to 149 milliseconds changes no state; the result is
  the formatted line and the error, which is always nil.
\<close>

definition processTask :: "Worker \<Rightarrow> Task \<Rightarrow> string \<times> string option" where
  "processTask w task =
     (let processedValue = DataValue task * 2 + ID task;
          result = ''Task '' @ fmt_d (ID task) @ '' processed by Worker-'' @ fmt_d (Worker_ID w)
                   @ '' | Original: '' @ fmt_d (DataValue task)
                   @ '' | Processed: '' @ fmt_d processedValue
      in (result, None))"

section \<open>The running program\<close>

text \<open>
  The constants \<^verbatim>\<open>NUM_WORKERS\<close> and \<^verbatim>\<open>NUM_TASKS\<close> are parameters of the model;
  the repository sets them to 5 and 20.
\<close>

record config =
  NUM_WORKERS :: goint
  NUM_TASKS :: goint

definition reference_config :: config where
  "reference_config = \<lparr>NUM_WORKERS = 5, NUM_TASKS = 20\<rparr>"

text \<open>
  The program is a transition system. A run is a list of events: each event names the
  goroutine that the scheduler lets take its next step, and carries what the environment
  supplies to that step: the formatted time (\<^verbatim>\<open>time.Now()\<close>) and whether the file operation
  of the step, if it has one, fails. A goroutine that is blocked, absent or finished does
  not move. Standard output (\<^verbatim>\<open>fmt.Printf\<close>, \<^verbatim>\<open>fmt.Println\<close>) and the last message
  of \<^verbatim>\<open>log.Fatalf\<close> are write-only and not modelled; \<open>stderr\<close> holds what
  \<^verbatim>\<open>Logger.Log\<close> prints when its write fails.
\<close>

datatype goroutine = Main | Closer | Wrk nat

record event =
  who :: goroutine
  now :: string
  oserr :: "string option"

text \<open>
  What a step does to the shared objects: an enqueue, the start of the timer goroutine,
  the close of the queue, a delivery to a worker, the receive that reports the closed and
  drained queue, a failed computation, and a result write that succeeds or fails.
\<close>

datatype action =
    Tau
  | Enq Task
  | StartTimer
  | Cls
  | Deq goint Task
  | DeqClosed goint
  | ComputeFail goint Task
  | Emit goint Task
  | EmitFail goint Task

text \<open>The control points of \<^verbatim>\<open>main\<close> (with \<^verbatim>\<open>preloadTasks\<close> and \<^verbatim>\<open>displaySummary\<close>
  inlined) and of the goroutine that closes the queue.\<close>

datatype mpc =
    MNewLogger
  | MInitLog
  | MNewResultWriter
  | MFatalLog string
  | MNewTaskQueue
  | MPreload goint
  | MPreloadLog goint
  | MStartLog
  | MSpawnAdd goint
  | MSpawnGo goint
  | MGoCloser
  | MWait
  | MDoneLog
  | MSummaryOpen
  | MSummaryRead
  | MSummaryLog string
  | MCloseResults bool
  | MShutdownLog bool
  | MCloseLog bool
  | MExit
  | MDead

datatype cpc = CAbsent | CSleep | CClose | CDone

record sys =
  mpc :: mpc
  taskQueue :: TaskQueue
  resultWriter :: ResultWriter
  logger :: Logger
  wg :: int
  workers :: "Worker list"
  closer :: cpc
  stderr :: "string list"

text \<open>
  Before \<^verbatim>\<open>main\<close> has created them, the queue, the result writer and the logger are nil;
  the fields then hold an empty placeholder that no step reads.
\<close>

definition init :: sys where
  "init = \<lparr>mpc = MNewLogger,
           taskQueue = \<lparr>buf = [], cap = 0, closed = False\<rparr>,
           resultWriter = \<lparr>rw_file = os_Create\<rparr>,
           logger = \<lparr>log_file = os_Create\<rparr>,
           wg = 0,
           workers = [],
           closer = CAbsent,
           stderr = []\<rparr>"

definition sys_Log :: "event \<Rightarrow> string \<Rightarrow> sys \<Rightarrow> sys" where
  "sys_Log e message s =
     (case Log (now e) (oserr e) (logger s) message of
        (l, errs) \<Rightarrow> s\<lparr>logger := l, stderr := stderr s @ errs\<rparr>)"

definition set_worker :: "nat \<Rightarrow> Worker \<Rightarrow> sys \<Rightarrow> sys" where
  "set_worker k w s = s\<lparr>workers := (workers s)[k := w]\<rparr>"

text \<open>The task that iteration \<open>i\<close> of the loop in \<^verbatim>\<open>preloadTasks\<close> builds.\<close>

definition preload_task :: "goint \<Rightarrow> Task" where
  "preload_task i = \<lparr>ID = i, Description = ''Process data item '' @ fmt_d i, DataValue = i * 100\<rparr>"

definition main_step :: "config \<Rightarrow> event \<Rightarrow> sys \<Rightarrow> action \<times> sys" where
  "main_step cfg e s =
     (case mpc s of
        MNewLogger \<Rightarrow>
          (case NewLogger (oserr e) of
             Inl err \<Rightarrow> (Tau, s\<lparr>mpc := MDead\<rparr>)
           | Inr l \<Rightarrow> (Tau, s\<lparr>logger := l, mpc := MInitLog\<rparr>))
      | MInitLog \<Rightarrow> (Tau, (sys_Log e ''System initialization started'' s)\<lparr>mpc := MNewResultWriter\<rparr>)
      | MNewResultWriter \<Rightarrow>
          (case NewResultWriter (oserr e) of
             Inl err \<Rightarrow> (Tau, s\<lparr>mpc := MFatalLog err\<rparr>)
           | Inr rw \<Rightarrow> (Tau, s\<lparr>resultWriter := rw, mpc := MNewTaskQueue\<rparr>))
      | MFatalLog err \<Rightarrow>
          (Tau, (sys_Log e (''FATAL ERROR: Failed to initialize result writer: '' @ err) s)
                  \<lparr>mpc := MDead\<rparr>)
      | MNewTaskQueue \<Rightarrow>
          (case NewTaskQueue (NUM_TASKS cfg) of
             Returns q \<Rightarrow> (Tau, s\<lparr>taskQueue := q, mpc := MPreload 1\<rparr>)
           | _ \<Rightarrow> (Tau, s\<lparr>mpc := MCloseResults True\<rparr>))
      | MPreload i \<Rightarrow>
          (if i \<le>s NUM_TASKS cfg then
             (case AddTask (taskQueue s) (preload_task i) of
                Blocks \<Rightarrow> (Tau, s)
              | Panics \<Rightarrow> (Tau, s\<lparr>mpc := MCloseResults True\<rparr>)
              | Returns q \<Rightarrow> (Enq (preload_task i), s\<lparr>taskQueue := q, mpc := MPreloadLog i\<rparr>))
           else (Tau, s\<lparr>mpc := MStartLog\<rparr>))
      | MPreloadLog i \<Rightarrow>
          (Tau, (sys_Log e (''Task '' @ fmt_d i @ '' added to queue'') s)\<lparr>mpc := MPreload (i + 1)\<rparr>)
      | MStartLog \<Rightarrow>
          (Tau, (sys_Log e (''Starting '' @ fmt_d (NUM_WORKERS cfg) @ '' worker goroutines'') s)
                  \<lparr>mpc := MSpawnAdd 1\<rparr>)
      | MSpawnAdd i \<Rightarrow>
          (if i \<le>s NUM_WORKERS cfg then (Tau, s\<lparr>wg := wg s + 1, mpc := MSpawnGo i\<rparr>)
           else (Tau, s\<lparr>mpc := MGoCloser\<rparr>))
      | MSpawnGo i \<Rightarrow>
          (Tau, s\<lparr>workers := workers s @ [\<lparr>Worker_ID = i, wpc = WStart, tasksProcessed = 0\<rparr>],
                  mpc := MSpawnAdd (i + 1)\<rparr>)
      | MGoCloser \<Rightarrow> (StartTimer, s\<lparr>closer := CSleep, mpc := MWait\<rparr>)
      | MWait \<Rightarrow> (if wg s = 0 then (Tau, s\<lparr>mpc := MDoneLog\<rparr>) else (Tau, s))
      | MDoneLog \<Rightarrow> (Tau, (sys_Log e ''All workers completed'' s)\<lparr>mpc := MSummaryOpen\<rparr>)
      | MSummaryOpen \<Rightarrow>
          (case oserr e of
             Some err \<Rightarrow> (Tau, s\<lparr>mpc := MSummaryLog (''ERROR: Failed to open results file: '' @ err)\<rparr>)
           | None \<Rightarrow> (Tau, s\<lparr>mpc := MSummaryRead\<rparr>))
      | MSummaryRead \<Rightarrow>
          (case oserr e of
             Some err \<Rightarrow> (Tau, s\<lparr>mpc := MSummaryLog (''ERROR: Failed to read results file: '' @ err)\<rparr>)
           | None \<Rightarrow> (Tau, s\<lparr>mpc := MCloseResults False\<rparr>))
      | MSummaryLog message \<Rightarrow> (Tau, (sys_Log e message s)\<lparr>mpc := MCloseResults False\<rparr>)
      | MCloseResults p \<Rightarrow>
          (Tau, s\<lparr>resultWriter := snd (ResultWriter_Close (resultWriter s)), mpc := MShutdownLog p\<rparr>)
      | MShutdownLog p \<Rightarrow> (Tau, (sys_Log e ''System shutdown complete'' s)\<lparr>mpc := MCloseLog p\<rparr>)
      | MCloseLog p \<Rightarrow>
          (Tau, s\<lparr>logger := snd (Logger_Close (logger s)), mpc := (if p then MDead else MExit)\<rparr>)
      | MExit \<Rightarrow> (Tau, s)
      | MDead \<Rightarrow> (Tau, s))"

text \<open>The anonymous goroutine of \<^verbatim>\<open>main\<close>: sleep 100 milliseconds, then close the queue.\<close>

definition closer_step :: "sys \<Rightarrow> action \<times> sys" where
  "closer_step s =
     (case closer s of
        CAbsent \<Rightarrow> (Tau, s)
      | CSleep \<Rightarrow> (Tau, s\<lparr>closer := CClose\<rparr>)
      | CClose \<Rightarrow>
          (case TaskQueue_Close (taskQueue s) of
             Returns q \<Rightarrow> (Cls, s\<lparr>taskQueue := q, closer := CDone\<rparr>)
           | _ \<Rightarrow> (Tau, s\<lparr>mpc := MDead\<rparr>))
      | CDone \<Rightarrow> (Tau, s))"

text \<open>\<^verbatim>\<open>Worker.Run\<close> of the worker at index \<open>k\<close>; \<^verbatim>\<open>wg.Done\<close> is deferred to the end.\<close>

definition worker_step :: "event \<Rightarrow> nat \<Rightarrow> sys \<Rightarrow> action \<times> sys" where
  "worker_step e k s =
     (let w = workers s ! k; workerName = ''Worker-'' @ fmt_d (Worker_ID w) in
      case wpc w of
        WStart \<Rightarrow>
          (Tau, set_worker k (w\<lparr>wpc := WFetch, tasksProcessed := 0\<rparr>)
                  (sys_Log e (workerName @ '' started'') s))
      | WFetch \<Rightarrow>
          (case GetTask (taskQueue s) of
             Blocks \<Rightarrow> (Tau, s)
           | Panics \<Rightarrow> (Tau, s\<lparr>mpc := MDead\<rparr>)
           | Returns ((task, ok), q) \<Rightarrow>
               if \<not> ok then
                 (DeqClosed (Worker_ID w), set_worker k (w\<lparr>wpc := WDrainLog\<rparr>) (s\<lparr>taskQueue := q\<rparr>))
               else
                 (Deq (Worker_ID w) task, set_worker k (w\<lparr>wpc := WProcLog task\<rparr>) (s\<lparr>taskQueue := q\<rparr>)))
      | WDrainLog \<Rightarrow>
          (Tau, set_worker k (w\<lparr>wpc := WFinishLog\<rparr>)
                  (sys_Log e (workerName @ '' found empty queue, finishing'') s))
      | WProcLog task \<Rightarrow>
          (Tau, set_worker k (w\<lparr>wpc := WCompute task\<rparr>)
                  (sys_Log e (workerName @ '' processing '' @ Task_String task) s))
      | WCompute task \<Rightarrow>
          (case processTask w task of
             (result, Some err) \<Rightarrow>
               (ComputeFail (Worker_ID w) task, set_worker k (w\<lparr>wpc := WComputeErrLog task err\<rparr>) s)
           | (result, None) \<Rightarrow>
               (Tau, set_worker k (w\<lparr>wpc := WEmit task result, tasksProcessed := tasksProcessed w + 1\<rparr>) s))
      | WComputeErrLog task err \<Rightarrow>
          (Tau, set_worker k (w\<lparr>wpc := WFetch\<rparr>)
                  (sys_Log e (''ERROR: '' @ workerName @ '' failed to process Task '' @ fmt_d (ID task)
                              @ '': '' @ err) s))
      | WEmit task result \<Rightarrow>
          (case WriteResult (oserr e) (resultWriter s) result of
             (Some err, rw) \<Rightarrow>
               (EmitFail (Worker_ID w) task,
                set_worker k (w\<lparr>wpc := WEmitErrLog task err\<rparr>) (s\<lparr>resultWriter := rw\<rparr>))
           | (None, rw) \<Rightarrow>
               (Emit (Worker_ID w) task,
                set_worker k (w\<lparr>wpc := WCompleteLog task\<rparr>) (s\<lparr>resultWriter := rw\<rparr>)))
      | WEmitErrLog task err \<Rightarrow>
          (Tau, set_worker k (w\<lparr>wpc := WFetch\<rparr>)
                  (sys_Log e (''ERROR: '' @ workerName @ '' failed to write result for Task ''
                              @ fmt_d (ID task) @ '': '' @ err) s))
      | WCompleteLog task \<Rightarrow>
          (Tau, set_worker k (w\<lparr>wpc := WFetch\<rparr>)
                  (sys_Log e (workerName @ '' completed Task '' @ fmt_d (ID task)) s))
      | WFinishLog \<Rightarrow>
          (Tau, set_worker k (w\<lparr>wpc := WDeferDone\<rparr>)
                  (sys_Log e (workerName @ '' finished after processing '' @ fmt_d (tasksProcessed w)
                              @ '' tasks'') s))
      | WDeferDone \<Rightarrow>
          (if wg s - 1 < 0 then (Tau, s\<lparr>mpc := MDead\<rparr>)
           else (Tau, set_worker k (w\<lparr>wpc := WExit\<rparr>) (s\<lparr>wg := wg s - 1\<rparr>)))
      | WExit \<Rightarrow> (Tau, s))"

text \<open>
  One step of the program. After \<^verbatim>\<open>main\<close> has returned, or the process has died
  (\<^verbatim>\<open>log.Fatalf\<close>, a panic), no goroutine runs.
\<close>

definition step :: "config \<Rightarrow> event \<Rightarrow> sys \<Rightarrow> action \<times> sys" where
  "step cfg e s =
     (if mpc s = MExit \<or> mpc s = MDead then (Tau, s)
      else case who e of
             Main \<Rightarrow> main_step cfg e s
           | Closer \<Rightarrow> closer_step s
           | Wrk k \<Rightarrow> if k < length (workers s) then worker_step e k s else (Tau, s))"

fun run :: "config \<Rightarrow> sys \<Rightarrow> event list \<Rightarrow> sys" where
  "run cfg s [] = s"
| "run cfg s (e # es) = run cfg (snd (step cfg e s)) es"

fun trace :: "config \<Rightarrow> sys \<Rightarrow> event list \<Rightarrow> action list" where
  "trace cfg s [] = []"
| "trace cfg s (e # es) = fst (step cfg e s) # trace cfg (snd (step cfg e s)) es"

section \<open>Observations, invariants and example runs\<close>

text \<open>
  What a trace shows: the tasks enqueued, the deliveries (worker id and task), the result
  writes that succeeded and those that failed, the computations that failed, and the
  workers that were told that the queue is closed and drained, each in order.
\<close>

fun enq_of :: "action \<Rightarrow> Task list" where
  "enq_of (Enq t) = [t]"
| "enq_of _ = []"

fun deq_of :: "action \<Rightarrow> (goint \<times> Task) list" where
  "deq_of (Deq w t) = [(w, t)]"
| "deq_of _ = []"

fun emit_of :: "action \<Rightarrow> (goint \<times> Task) list" where
  "emit_of (Emit w t) = [(w, t)]"
| "emit_of _ = []"

fun efail_of :: "action \<Rightarrow> (goint \<times> Task) list" where
  "efail_of (EmitFail w t) = [(w, t)]"
| "efail_of _ = []"

fun cfail_of :: "action \<Rightarrow> (goint \<times> Task) list" where
  "cfail_of (ComputeFail w t) = [(w, t)]"
| "cfail_of _ = []"

fun drain_of :: "action \<Rightarrow> goint list" where
  "drain_of (DeqClosed w) = [w]"
| "drain_of _ = []"

definition enqs :: "action list \<Rightarrow> Task list" where
  "enqs tr = concat (map enq_of tr)"

definition deqs :: "action list \<Rightarrow> (goint \<times> Task) list" where
  "deqs tr = concat (map deq_of tr)"

definition emits :: "action list \<Rightarrow> (goint \<times> Task) list" where
  "emits tr = concat (map emit_of tr)"

definition efails :: "action list \<Rightarrow> (goint \<times> Task) list" where
  "efails tr = concat (map efail_of tr)"

definition cfails :: "action list \<Rightarrow> (goint \<times> Task) list" where
  "cfails tr = concat (map cfail_of tr)"

definition drains :: "action list \<Rightarrow> goint list" where
  "drains tr = concat (map drain_of tr)"

fun setup_pc :: "mpc \<Rightarrow> bool" where
  "setup_pc MNewLogger = True"
| "setup_pc MInitLog = True"
| "setup_pc MNewResultWriter = True"
| "setup_pc (MFatalLog err) = True"
| "setup_pc MNewTaskQueue = True"
| "setup_pc _ = False"

fun preload_pc :: "mpc \<Rightarrow> bool" where
  "preload_pc (MPreload i) = True"
| "preload_pc (MPreloadLog i) = True"
| "preload_pc _ = False"

fun spawn_pc :: "mpc \<Rightarrow> bool" where
  "spawn_pc MStartLog = True"
| "spawn_pc (MSpawnAdd i) = True"
| "spawn_pc (MSpawnGo i) = True"
| "spawn_pc MGoCloser = True"
| "spawn_pc _ = False"

fun finished_pc :: "mpc \<Rightarrow> bool" where
  "finished_pc MDoneLog = True"
| "finished_pc MSummaryOpen = True"
| "finished_pc MSummaryRead = True"
| "finished_pc (MSummaryLog m) = True"
| "finished_pc (MCloseResults p) = (\<not> p)"
| "finished_pc (MShutdownLog p) = (\<not> p)"
| "finished_pc (MCloseLog p) = (\<not> p)"
| "finished_pc MExit = True"
| "finished_pc _ = False"

text \<open>Until preload is over there is no worker and no timer, and nothing leaves the queue.\<close>

definition inv_early :: "action list \<Rightarrow> sys \<Rightarrow> bool" where
  "inv_early tr s \<longleftrightarrow>
     (setup_pc (mpc s) \<or> preload_pc (mpc s) \<longrightarrow>
        workers s = [] \<and> closer s = CAbsent \<and> \<not> closed (taskQueue s) \<and> wg s = 0
        \<and> content (rw_file (resultWriter s)) = [] \<and> buf (taskQueue s) = enqs tr
        \<and> deqs tr = [] \<and> emits tr = [] \<and> drains tr = [])
     \<and> (setup_pc (mpc s) \<longrightarrow> enqs tr = [])"

text \<open>The loop variable of \<^verbatim>\<open>preloadTasks\<close> counts the tasks enqueued so far.\<close>

definition inv_preload :: "config \<Rightarrow> action list \<Rightarrow> sys \<Rightarrow> bool" where
  "inv_preload cfg tr s \<longleftrightarrow>
     (\<forall>i. mpc s = MPreload i \<longrightarrow>
        0 \<le> sint (NUM_TASKS cfg) \<and> cap (taskQueue s) = unat (NUM_TASKS cfg)
        \<and> unat i = Suc (length (enqs tr)))
     \<and> (\<forall>i. mpc s = MPreloadLog i \<longrightarrow>
        0 \<le> sint (NUM_TASKS cfg) \<and> cap (taskQueue s) = unat (NUM_TASKS cfg)
        \<and> unat i = length (enqs tr))"

text \<open>The tasks enqueued so far are the first tasks of the preload sequence.\<close>

definition preload_seq :: "nat \<Rightarrow> Task list" where
  "preload_seq n = map (\<lambda>k. preload_task (of_nat k)) [1..<Suc n]"

definition inv_enq :: "config \<Rightarrow> action list \<Rightarrow> bool" where
  "inv_enq cfg tr \<longleftrightarrow>
     enqs tr = preload_seq (length (enqs tr))
     \<and> length (enqs tr) \<le> nat (sint (NUM_TASKS cfg))"

text \<open>Workers and the timer exist only once every task has been enqueued.\<close>

definition inv_done :: "config \<Rightarrow> action list \<Rightarrow> sys \<Rightarrow> bool" where
  "inv_done cfg tr s \<longleftrightarrow>
     (spawn_pc (mpc s) \<or> workers s \<noteq> [] \<or> closer s \<noteq> CAbsent \<longrightarrow>
        length (enqs tr) = nat (sint (NUM_TASKS cfg)))
     \<and> (spawn_pc (mpc s) \<longrightarrow> closer s = CAbsent)
     \<and> (mpc s = MStartLog \<longrightarrow> workers s = [])
     \<and> (closed (taskQueue s) \<longrightarrow> closer s = CDone)
     \<and> (mpc s = MWait \<or> finished_pc (mpc s) \<longrightarrow> closer s \<noteq> CAbsent)"

text \<open>The timer has been started, and the queue closed, exactly when the trace says so.\<close>

definition inv_marks :: "action list \<Rightarrow> sys \<Rightarrow> bool" where
  "inv_marks tr s \<longleftrightarrow>
     (StartTimer \<in> set tr \<longleftrightarrow> closer s \<noteq> CAbsent)
     \<and> (Cls \<in> set tr \<longleftrightarrow> closed (taskQueue s))"

text \<open>First in, first out: what was enqueued is what was delivered followed by the buffer.\<close>

definition inv_fifo :: "action list \<Rightarrow> sys \<Rightarrow> bool" where
  "inv_fifo tr s \<longleftrightarrow> enqs tr = map snd (deqs tr) @ buf (taskQueue s)"

text \<open>A worker is past its loop only when the queue is closed and drained.\<close>

fun exited :: "wpc \<Rightarrow> bool" where
  "exited WDrainLog = True"
| "exited WFinishLog = True"
| "exited WDeferDone = True"
| "exited WExit = True"
| "exited _ = False"

definition inv_exit :: "sys \<Rightarrow> bool" where
  "inv_exit s \<longleftrightarrow>
     (\<forall>j < length (workers s). exited (wpc (workers s ! j)) \<longrightarrow>
        closed (taskQueue s) \<and> buf (taskQueue s) = [])"

text \<open>A worker is told that the queue is closed and drained only when it is.\<close>

definition inv_drained :: "action list \<Rightarrow> sys \<Rightarrow> bool" where
  "inv_drained tr s \<longleftrightarrow>
     (drains tr \<noteq> [] \<longrightarrow> closed (taskQueue s) \<and> buf (taskQueue s) = [])"

text \<open>The log file is open as long as the process runs.\<close>

definition inv_logopen :: "sys \<Rightarrow> bool" where
  "inv_logopen s \<longleftrightarrow>
     (mpc s \<noteq> MExit \<and> mpc s \<noteq> MDead \<longrightarrow> \<not> fclosed (log_file (logger s)))"

text \<open>No computation fails.\<close>

definition inv_nocfail :: "action list \<Rightarrow> sys \<Rightarrow> bool" where
  "inv_nocfail tr s \<longleftrightarrow>
     cfails tr = []
     \<and> (\<forall>j < length (workers s). \<forall>t err. wpc (workers s ! j) \<noteq> WComputeErrLog t err)"

text \<open>
  Every delivered task is accounted for: it has been written, its write has failed, its
  computation has failed, or a worker still holds it.
\<close>

definition hold :: "Worker \<Rightarrow> (goint \<times> Task) multiset" where
  "hold w =
     (case wpc w of
        WProcLog t \<Rightarrow> {#(Worker_ID w, t)#}
      | WCompute t \<Rightarrow> {#(Worker_ID w, t)#}
      | WEmit t r \<Rightarrow> {#(Worker_ID w, t)#}
      | _ \<Rightarrow> {#})"

definition holding :: "Worker list \<Rightarrow> (goint \<times> Task) multiset" where
  "holding ws = sum_list (map hold ws)"

definition inv_acct :: "action list \<Rightarrow> sys \<Rightarrow> bool" where
  "inv_acct tr s \<longleftrightarrow>
     mset (deqs tr) = mset (emits tr) + mset (efails tr) + mset (cfails tr) + holding (workers s)"

text \<open>The result file holds one entry per successful write, in the order of the writes.\<close>

definition result_line :: "goint \<Rightarrow> Task \<Rightarrow> string" where
  "result_line w t =
     ''Task '' @ fmt_d (ID t) @ '' processed by Worker-'' @ fmt_d w
     @ '' | Original: '' @ fmt_d (DataValue t)
     @ '' | Processed: '' @ fmt_d (DataValue t * 2 + ID t)"

definition result_entry :: "goint \<times> Task \<Rightarrow> string" where
  "result_entry p = result_line (fst p) (snd p) @ ''\<newline>''"

definition inv_results :: "action list \<Rightarrow> sys \<Rightarrow> bool" where
  "inv_results tr s \<longleftrightarrow>
     content (rw_file (resultWriter s)) = map result_entry (emits tr)
     \<and> (\<forall>w \<in> set (workers s). \<forall>t r. wpc w = WEmit t r \<longrightarrow> r = result_line (Worker_ID w) t)"

text \<open>
  The counters \<^verbatim>\<open>tasksProcessed\<close> count the tasks that have reached the write: those
  written, those whose write failed, and those about to be written.
\<close>

definition at_emit :: "Worker \<Rightarrow> nat" where
  "at_emit w = (case wpc w of WEmit t r \<Rightarrow> 1 | _ \<Rightarrow> 0)"

definition processed_sum :: "Worker list \<Rightarrow> nat" where
  "processed_sum ws = sum_list (map (\<lambda>w. unat (tasksProcessed w)) ws)"

definition pending :: "Worker list \<Rightarrow> nat" where
  "pending ws = sum_list (map at_emit ws)"

definition inv_count :: "action list \<Rightarrow> sys \<Rightarrow> bool" where
  "inv_count tr s \<longleftrightarrow>
     processed_sum (workers s) = length (emits tr) + length (efails tr) + pending (workers s)
     \<and> (\<forall>w \<in> set (workers s). wpc w = WStart \<longrightarrow> tasksProcessed w = 0)"

text \<open>The WaitGroup counts the workers that have not finished.\<close>

definition alive :: "Worker \<Rightarrow> nat" where
  "alive w = (if wpc w = WExit then 0 else 1)"

definition alive_count :: "Worker list \<Rightarrow> nat" where
  "alive_count ws = sum_list (map alive ws)"

definition inv_wg :: "sys \<Rightarrow> bool" where
  "inv_wg s \<longleftrightarrow>
     (mpc s \<noteq> MDead \<longrightarrow>
        wg s = int (alive_count (workers s)) + (case mpc s of MSpawnGo i \<Rightarrow> 1 | _ \<Rightarrow> 0))"

text \<open>Once \<^verbatim>\<open>wg.Wait\<close> has returned, every worker has finished.\<close>

definition inv_finished :: "sys \<Rightarrow> bool" where
  "inv_finished s \<longleftrightarrow> (finished_pc (mpc s) \<longrightarrow> (\<forall>w \<in> set (workers s). wpc w = WExit))"

text \<open>
  The workers carry the ids 1, 2, ... in the order of their creation. The loop that starts
  them ends only if \<^verbatim>\<open>NUM_WORKERS\<close> is not the largest \<^verbatim>\<open>int\<close>.
\<close>

definition ids_upto :: "nat \<Rightarrow> goint list" where
  "ids_upto n = map of_nat [1..<Suc n]"

definition inv_ids :: "config \<Rightarrow> sys \<Rightarrow> bool" where
  "inv_ids cfg s \<longleftrightarrow>
     map Worker_ID (workers s) = ids_upto (length (workers s))
     \<and> length (workers s) \<le> nat (sint (NUM_WORKERS cfg))
     \<and> (\<forall>i. mpc s = MSpawnAdd i \<longrightarrow> unat i = Suc (length (workers s)))
     \<and> (\<forall>i. mpc s = MSpawnGo i \<longrightarrow>
          unat i = Suc (length (workers s)) \<and> length (workers s) < nat (sint (NUM_WORKERS cfg)))
     \<and> (mpc s = MGoCloser \<or> closer s \<noteq> CAbsent \<longrightarrow>
          length (workers s) = nat (sint (NUM_WORKERS cfg)))"

text \<open>A task is delivered only to a worker that exists.\<close>

definition inv_deq_ids :: "action list \<Rightarrow> sys \<Rightarrow> bool" where
  "inv_deq_ids tr s \<longleftrightarrow> (\<forall>p \<in> set (deqs tr). fst p \<in> Worker_ID ` set (workers s))"

definition inv :: "config \<Rightarrow> action list \<Rightarrow> sys \<Rightarrow> bool" where
  "inv cfg tr s \<longleftrightarrow>
     inv_early tr s \<and> inv_preload cfg tr s \<and> inv_enq cfg tr \<and> inv_done cfg tr s
     \<and> inv_marks tr s \<and> inv_fifo tr s \<and> inv_exit s \<and> inv_nocfail tr s \<and> inv_acct tr s
     \<and> inv_results tr s \<and> inv_count tr s \<and> inv_wg s \<and> inv_finished s \<and> inv_deq_ids tr s
     \<and> inv_drained tr s \<and> inv_logopen s"

text \<open>
  The Java implementation (\<^verbatim>\<open>DataProcessingSystem.java\<close>) keeps its tasks in a
  \<^verbatim>\<open>LinkedList\<close> guarded by a lock. The queue has no closed state: \<^verbatim>\<open>addTask\<close> is
  \<^verbatim>\<open>offer\<close>, and \<^verbatim>\<open>getTask\<close> is \<^verbatim>\<open>poll\<close>, which never blocks and returns null
  (\<open>None\<close>) when the list is empty. Java's \<^verbatim>\<open>int\<close> has 32 bits.
\<close>

record JTask =
  jid :: "32 word"
  jdescription :: string
  jdataValue :: "32 word"

type_synonym Java_TaskQueue = "JTask list"

definition Java_TaskQueue_new :: Java_TaskQueue where
  "Java_TaskQueue_new = []"

definition Java_addTask :: "Java_TaskQueue \<Rightarrow> JTask \<Rightarrow> Java_TaskQueue" where
  "Java_addTask queue task = queue @ [task]"

definition Java_getTask :: "Java_TaskQueue \<Rightarrow> JTask option \<times> Java_TaskQueue" where
  "Java_getTask queue = (case queue of [] \<Rightarrow> (None, []) | task # rest \<Rightarrow> (Some task, rest))"

text \<open>
  Example runs with one worker and one task: every goroutine is scheduled until it has
  finished. In the second run the write of the result fails.
\<close>

definition demo_config :: config where
  "demo_config = \<lparr>NUM_WORKERS = 1, NUM_TASKS = 1\<rparr>"

definition tick :: "goroutine \<Rightarrow> event" where
  "tick g = \<lparr>who = g, now = ''2025-01-01 12:00:00.000'', oserr = None\<rparr>"

definition failing :: "goroutine \<Rightarrow> event" where
  "failing g = \<lparr>who = g, now = ''2025-01-01 12:00:00.000'', oserr = Some ''disk full''\<rparr>"

definition demo_prefix :: "event list" where
  "demo_prefix = replicate 12 (tick Main) @ replicate 2 (tick Closer)"

definition demo_rest :: "event list" where
  "demo_rest = replicate 10 (tick (Wrk 0)) @ replicate 7 (tick Main)"

definition demo_failing_rest :: "event list" where
  "demo_failing_rest =
     replicate 4 (tick (Wrk 0)) @ [failing (Wrk 0)] @ replicate 5 (tick (Wrk 0))
     @ replicate 7 (tick Main)"

definition demo_preload :: "event list" where
  "demo_preload = replicate 7 (tick Main)"

text \<open>The preload of the program as the repository configures it: 20 tasks.\<close>

definition reference_preload :: "event list" where
  "reference_preload = replicate 45 (tick Main)"

definition demo_computing :: "event list" where
  "demo_computing = demo_prefix @ replicate 3 (tick (Wrk 0))"





section \<open>Proofs of the invariants\<close>

subsection \<open>Word arithmetic\<close>

lemma sint_uint_cases:
  "sint (w::goint) = (if uint w < 2^63 then uint w else uint w - 2^64)"
proof -
  have lt: "uint w < 2^64" using uint_lt2p [of w] by simp
  have ge: "0 \<le> uint w" by simp
  have "sint w = take_bit 64 (uint w + 2^63) - 2^63"
    by (simp add: sint_uint signed_take_bit_eq_take_bit_shift)
  then have e: "sint w = (uint w + 2^63) mod 2^64 - 2^63"
    by (simp add: take_bit_eq_mod)
  show ?thesis
  proof (cases "uint w < 2^63")
    case True
    then have "(uint w + 2^63) mod 2^64 = uint w + 2^63"
      using ge by (intro mod_pos_pos_trivial) simp_all
    with e True show ?thesis by simp
  next
    case False
    have "(uint w + 2^63) mod 2^64 = (uint w + 2^63 - 2^64) mod 2^64"
      by (metis mod_diff_right_eq mod_self diff_zero)
    also have "\<dots> = uint w + 2^63 - 2^64"
      using False lt by (intro mod_pos_pos_trivial) simp_all
    finally show ?thesis using e False by simp
  qed
qed

lemma sint_unat:
  "sint (w::goint) = (if unat w < 2^63 then int (unat w) else int (unat w) - 2^64)"
proof -
  have "(unat w < 2^63) = (uint w < 2^63)"
    by (simp add: unat_eq_nat_uint nat_less_iff del: nat_uint_eq)
  then show ?thesis by (simp add: sint_uint_cases)
qed

lemma sint_small: "unat (i::goint) < 2^63 \<Longrightarrow> sint i = int (unat i)"
  by (simp only: sint_unat if_True)

lemma unat_succ: "unat (i::goint) < 2^63 \<Longrightarrow> unat (i + 1) = Suc (unat i)"
proof -
  assume a: "unat i < 2^63"
  have "unat i + unat (1::goint) < 2 ^ LENGTH(64)" using a by simp
  then have "unat (i + 1) = unat i + unat (1::goint)" by (simp only: unat_add_lem)
  then show ?thesis by simp
qed

lemma unat_nonneg: "0 \<le> sint (T::goint) \<Longrightarrow> unat T = nat (sint T)"
proof -
  assume a: "0 \<le> sint T"
  have "unat T < 2^63"
  proof (rule ccontr)
    assume "\<not> unat T < 2^63"
    then have "sint T = int (unat T) - 2^64" by (simp only: sint_unat if_False)
    with a have "2^64 \<le> uint T" by simp
    with uint_lt2p [of T] show False by simp
  qed
  then have "sint T = int (unat T)" by (rule sint_small)
  then show ?thesis by simp
qed

lemma nat_sint_less: "nat (sint (T::goint)) < 2^63"
  using sint_less [of T] by simp

lemma sle_small: "unat (i::goint) < 2^63 \<Longrightarrow> (i \<le>s T) = (int (unat i) \<le> sint T)"
  by (simp only: word_sle_eq sint_small)

lemma sle_min: "unat (i::goint) = 2^63 \<Longrightarrow> i \<le>s T"
proof -
  assume a: "unat i = 2^63"
  have "sint i = int (unat i) - 2^64" using a by (simp only: sint_unat) simp
  then have "sint i = - (2^63)" using a by simp
  then show ?thesis using sint_ge [of T] by (simp add: word_sle_eq)
qed

text \<open>The loop test \<open>i \<le>s n\<close> of a counting loop whose counter is \<open>Suc len\<close>.\<close>

lemma loop_continue:
  assumes "unat (i::goint) = Suc len" and "len < nat (sint n)" 
  shows "i \<le>s n"
proof -
  have "Suc len < 2^63" using assms(2) nat_sint_less [of n] by linarith
  then have "unat i < 2^63" using assms(1) by simp
  then show ?thesis using assms by (simp add: sle_small)
qed

lemma loop_exit:
  assumes "unat (i::goint) = Suc len" and "len \<le> nat (sint n)" and "\<not> i \<le>s n"
  shows "len = nat (sint n)"
proof (cases "Suc len < 2^63")
  case True
  then have "unat i < 2^63" using assms(1) by simp
  then show ?thesis using assms by (simp add: sle_small)
next
  case False
  then have "Suc len = 2^63" using assms(2) nat_sint_less [of n] by linarith
  then have "i \<le>s n" using assms(1) by (simp add: sle_min)
  with assms(3) show ?thesis by simp
qed

lemma suc_bound: "len \<le> nat (x::int) \<Longrightarrow> x < 2^63 - 1 \<Longrightarrow> Suc len < 2^63"
proof -
  assume a: "len \<le> nat x" and b: "x < 2^63 - 1"
  have "int (Suc len) \<le> x + 1 \<or> len = 0" using a by linarith
  then have "int (Suc len) < 2^63" using b by auto
  then show ?thesis by (metis of_nat_less_numeral_power_cancel_iff)
qed

lemma loop_test:
  assumes "unat (i::goint) = Suc len" and "len \<le> nat (sint n)" and "i \<le>s n" and "sint n < 2^63 - 1"
  shows "len < nat (sint n)"
proof -
  have "Suc len < 2^63" using assms(2,4) by (rule suc_bound)
  then have "unat i < 2^63" using assms(1) by simp
  then show ?thesis using assms by (simp add: sle_small)
qed

subsection \<open>Observations of a trace\<close>

lemma obs_Nil [simp]:
  "enqs [] = []" "deqs [] = []" "emits [] = []" "efails [] = []" "cfails [] = []" "drains [] = []"
  by (simp_all add: enqs_def deqs_def emits_def efails_def cfails_def drains_def)

lemma obs_append [simp]:
  "enqs (tr @ tr') = enqs tr @ enqs tr'"
  "deqs (tr @ tr') = deqs tr @ deqs tr'"
  "emits (tr @ tr') = emits tr @ emits tr'"
  "efails (tr @ tr') = efails tr @ efails tr'"
  "cfails (tr @ tr') = cfails tr @ cfails tr'"
  "drains (tr @ tr') = drains tr @ drains tr'"
  by (simp_all add: enqs_def deqs_def emits_def efails_def cfails_def drains_def)

lemma obs_single [simp]:
  "enqs [a] = enq_of a" "deqs [a] = deq_of a" "emits [a] = emit_of a"
  "efails [a] = efail_of a" "cfails [a] = cfail_of a" "drains [a] = drain_of a"
  by (simp_all add: enqs_def deqs_def emits_def efails_def cfails_def drains_def)

subsection \<open>Frame facts\<close>

lemma sys_Log_fields [simp]:
  "mpc (sys_Log e m s) = mpc s"
  "taskQueue (sys_Log e m s) = taskQueue s"
  "resultWriter (sys_Log e m s) = resultWriter s"
  "wg (sys_Log e m s) = wg s"
  "workers (sys_Log e m s) = workers s"
  "closer (sys_Log e m s) = closer s"
  by (simp_all add: sys_Log_def split: prod.splits)

lemma sys_Log_fclosed [simp]:
  "fclosed (log_file (logger (sys_Log e m s))) = fclosed (log_file (logger s))"
  by (simp add: sys_Log_def Log_def file_Write_def Let_def split: option.split)

lemma set_worker_fields [simp]:
  "mpc (set_worker k w s) = mpc s"
  "taskQueue (set_worker k w s) = taskQueue s"
  "resultWriter (set_worker k w s) = resultWriter s"
  "logger (set_worker k w s) = logger s"
  "wg (set_worker k w s) = wg s"
  "workers (set_worker k w s) = (workers s)[k := w]"
  "closer (set_worker k w s) = closer s"
  "stderr (set_worker k w s) = stderr s"
  by (simp_all add: set_worker_def)

lemma run_snoc [simp]: "run cfg s (es @ [e]) = snd (step cfg e (run cfg s es))"
  by (induction es arbitrary: s) simp_all

lemma trace_snoc [simp]:
  "trace cfg s (es @ [e]) = trace cfg s es @ [fst (step cfg e (run cfg s es))]"
  by (induction es arbitrary: s) simp_all

lemma step_lift:
  assumes "P (tr @ [Tau]) s"
    and "P (tr @ [fst (main_step cfg e s)]) (snd (main_step cfg e s))"
    and "P (tr @ [fst (closer_step s)]) (snd (closer_step s))"
    and "\<And>k. k < length (workers s) \<Longrightarrow> P (tr @ [fst (worker_step e k s)]) (snd (worker_step e k s))"
  shows "P (tr @ [fst (step cfg e s)]) (snd (step cfg e s))"
  using assms by (simp add: step_def split: goroutine.split)

subsection \<open>Invariants\<close>

lemma inv_early_main:
  "inv_early tr s \<Longrightarrow> inv_early (tr @ [fst (main_step cfg e s)]) (snd (main_step cfg e s))"
  by (cases "mpc s")
     (simp_all add: inv_early_def main_step_def NewLogger_def NewResultWriter_def os_Create_def
        NewTaskQueue_def chan_make_def AddTask_def chan_send_def
      split: option.split)

lemma inv_early_closer:
  "inv_early tr s \<Longrightarrow> inv_early (tr @ [fst (closer_step s)]) (snd (closer_step s))"
  by (cases "closer s")
     (auto simp add: inv_early_def closer_step_def TaskQueue_Close_def chan_close_def)

lemma inv_early_step:
  "inv_early tr s \<Longrightarrow> inv_early (tr @ [fst (step cfg e s)]) (snd (step cfg e s))"
proof (rule step_lift)
  fix k
  assume "inv_early tr s" "k < length (workers s)"
  then have "\<not> setup_pc (mpc s)" "\<not> preload_pc (mpc s)"
    by (auto simp: inv_early_def)
  then show "inv_early (tr @ [fst (worker_step e k s)]) (snd (worker_step e k s))"
    apply (cases "wpc (workers s ! k)")
    apply (simp_all add: inv_early_def worker_step_def Let_def GetTask_def chan_recv_def processTask_def
      WriteResult_def file_Write_def
      split: list.split option.split)
    done
qed (simp_all add: inv_early_main inv_early_closer, simp add: inv_early_def)

lemma of_nat_unat_eq: "unat (i::goint) = n \<Longrightarrow> of_nat n = i"
  by auto

lemma preload_seq_0 [simp]: "preload_seq 0 = []"
  by (simp add: preload_seq_def)

lemma preload_seq_Suc: "preload_seq (Suc n) = preload_seq n @ [preload_task (of_nat (Suc n))]"
  by (simp add: preload_seq_def)

lemma length_preload_seq [simp]: "length (preload_seq n) = n"
  by (simp add: preload_seq_def)

lemma inv_preload_main:
  assumes "inv_preload cfg tr s" "inv_early tr s" "inv_enq cfg tr"
  shows "inv_preload cfg (tr @ [fst (main_step cfg e s)]) (snd (main_step cfg e s))"
proof (cases "mpc s")
  case MNewTaskQueue
  then show ?thesis using assms
    by (simp add: inv_preload_def inv_early_def main_step_def NewTaskQueue_def chan_make_def
          word_sless_alt)
next
  case (MPreload i)
  then show ?thesis using assms
    by (simp add: inv_preload_def inv_early_def main_step_def AddTask_def chan_send_def)
next
  case (MPreloadLog i)
  have "nat (sint (NUM_TASKS cfg)) < 2^63" by (rule nat_sint_less)
  with MPreloadLog assms have "unat i < 2^63"
    by (simp add: inv_preload_def inv_enq_def)
  then have "unat (i + 1) = Suc (unat i)" by (rule unat_succ)
  with MPreloadLog assms show ?thesis
    by (simp add: inv_preload_def main_step_def)
qed (use assms in \<open>simp_all add: inv_preload_def main_step_def NewLogger_def NewResultWriter_def
      split: option.split\<close>)

lemma inv_preload_step:
  assumes "inv_preload cfg tr s" "inv_early tr s" "inv_enq cfg tr"
  shows "inv_preload cfg (tr @ [fst (step cfg e s)]) (snd (step cfg e s))"
proof (rule step_lift)
  show "inv_preload cfg (tr @ [Tau]) s" using assms by (simp add: inv_preload_def)
  show "inv_preload cfg (tr @ [fst (main_step cfg e s)]) (snd (main_step cfg e s))"
    using assms by (rule inv_preload_main)
  show "inv_preload cfg (tr @ [fst (closer_step s)]) (snd (closer_step s))"
    using assms
    by (cases "closer s")
       (auto simp add: inv_preload_def inv_early_def closer_step_def TaskQueue_Close_def chan_close_def)
next
  fix k
  assume "k < length (workers s)"
  with assms have "\<not> preload_pc (mpc s)"
    by (auto simp: inv_early_def)
  then have *: "\<And>i. mpc s \<noteq> MPreload i" "\<And>i. mpc s \<noteq> MPreloadLog i"
    by auto
  show "inv_preload cfg (tr @ [fst (worker_step e k s)]) (snd (worker_step e k s))"
    using *
    by (cases "wpc (workers s ! k)")
       (simp_all add: inv_preload_def worker_step_def Let_def GetTask_def chan_recv_def processTask_def
          WriteResult_def file_Write_def
        split: list.split option.split)
qed

lemma inv_enq_main:
  assumes "inv_enq cfg tr" "inv_preload cfg tr s" "inv_early tr s"
  shows "inv_enq cfg (tr @ [fst (main_step cfg e s)])"
proof (cases "mpc s")
  case (MPreload i)
  show ?thesis
  proof (cases "i \<le>s NUM_TASKS cfg \<and> length (buf (taskQueue s)) < cap (taskQueue s)")
    case True
    from MPreload assms have u: "unat i = Suc (length (enqs tr))"
      and c: "cap (taskQueue s) = nat (sint (NUM_TASKS cfg))" and b: "buf (taskQueue s) = enqs tr"
      and nc: "\<not> closed (taskQueue s)"
      by (simp_all add: inv_preload_def inv_early_def unat_nonneg)
    from u have i: "of_nat (Suc (length (enqs tr))) = i" by (rule of_nat_unat_eq)
    from assms(1) have e: "enqs tr = preload_seq (length (enqs tr))"
      by (simp add: inv_enq_def)
    have "enqs tr @ [preload_task i] = preload_seq (Suc (length (enqs tr)))"
      using i e by (simp add: preload_seq_Suc)
    with True MPreload b c nc show ?thesis
      by (simp add: inv_enq_def main_step_def AddTask_def chan_send_def)
  next
    case False
    with MPreload assms show ?thesis
      by (auto simp add: inv_enq_def main_step_def AddTask_def chan_send_def inv_early_def)
  qed
qed (use assms in \<open>simp_all add: inv_enq_def main_step_def NewLogger_def NewResultWriter_def
      NewTaskQueue_def chan_make_def split: option.split\<close>)

lemma inv_enq_step:
  assumes "inv_enq cfg tr" "inv_preload cfg tr s" "inv_early tr s"
  shows "inv_enq cfg (tr @ [fst (step cfg e s)])"
proof (rule step_lift [where P = "\<lambda>tr s. inv_enq cfg tr"])
  show "inv_enq cfg (tr @ [Tau])" using assms by (simp add: inv_enq_def)
  show "inv_enq cfg (tr @ [fst (main_step cfg e s)])" using assms by (rule inv_enq_main)
  show "inv_enq cfg (tr @ [fst (closer_step s)])"
    using assms
    by (cases "closer s")
       (auto simp add: inv_enq_def closer_step_def TaskQueue_Close_def chan_close_def)
next
  fix k
  show "inv_enq cfg (tr @ [fst (worker_step e k s)])"
    using assms(1)
    by (cases "wpc (workers s ! k)")
       (simp_all add: inv_enq_def worker_step_def Let_def GetTask_def chan_recv_def processTask_def
          WriteResult_def file_Write_def
        split: list.split option.split)
qed

lemmas main_defs = main_step_def NewLogger_def NewResultWriter_def NewTaskQueue_def chan_make_def
  AddTask_def chan_send_def os_Create_def ResultWriter_Close_def Logger_Close_def file_Close_def

lemmas closer_defs = closer_step_def TaskQueue_Close_def chan_close_def

lemmas worker_defs = worker_step_def Let_def GetTask_def chan_recv_def processTask_def
  WriteResult_def file_Write_def

lemma inv_done_main:
  assumes "inv_done cfg tr s" "inv_early tr s" "inv_preload cfg tr s" "inv_enq cfg tr"
  shows "inv_done cfg (tr @ [fst (main_step cfg e s)]) (snd (main_step cfg e s))"
proof (cases "mpc s")
  case (MPreload i)
  show ?thesis
  proof (cases "i \<le>s NUM_TASKS cfg")
    case True
    with MPreload assms show ?thesis
      by (simp add: inv_done_def inv_early_def main_defs)
  next
    case False
    from MPreload assms have "unat i = Suc (length (enqs tr))"
      "length (enqs tr) \<le> nat (sint (NUM_TASKS cfg))"
      by (simp_all add: inv_preload_def inv_enq_def)
    then have "length (enqs tr) = nat (sint (NUM_TASKS cfg))"
      using False by (rule loop_exit)
    with False MPreload assms show ?thesis
      by (simp add: inv_done_def inv_early_def main_defs)
  qed
qed (use assms in \<open>auto simp add: inv_done_def inv_early_def main_defs split: option.split\<close>)

lemma inv_done_step:
  assumes "inv_done cfg tr s" "inv_early tr s" "inv_preload cfg tr s" "inv_enq cfg tr"
  shows "inv_done cfg (tr @ [fst (step cfg e s)]) (snd (step cfg e s))"
proof (rule step_lift)
  show "inv_done cfg (tr @ [Tau]) s" using assms by (simp add: inv_done_def)
  show "inv_done cfg (tr @ [fst (main_step cfg e s)]) (snd (main_step cfg e s))"
    using assms by (rule inv_done_main)
  show "inv_done cfg (tr @ [fst (closer_step s)]) (snd (closer_step s))"
    using assms(1)
    by (cases "closer s") (auto simp add: inv_done_def closer_defs)
next
  fix k
  assume "k < length (workers s)"
  then have "workers s \<noteq> []" by auto
  then show "inv_done cfg (tr @ [fst (worker_step e k s)]) (snd (worker_step e k s))"
    using assms(1)
    by (cases "wpc (workers s ! k)")
       (simp_all add: inv_done_def worker_defs split: list.split option.split)
qed

lemma inv_marks_step:
  assumes "inv_marks tr s" "inv_early tr s" "inv_done cfg tr s"
  shows "inv_marks (tr @ [fst (step cfg e s)]) (snd (step cfg e s))"
proof (rule step_lift)
  show "inv_marks (tr @ [Tau]) s" using assms by (simp add: inv_marks_def)
  show "inv_marks (tr @ [fst (main_step cfg e s)]) (snd (main_step cfg e s))"
    using assms
    by (cases "mpc s")
       (simp_all add: inv_marks_def inv_early_def inv_done_def main_defs split: option.split)
  show "inv_marks (tr @ [fst (closer_step s)]) (snd (closer_step s))"
    using assms
    by (cases "closer s") (auto simp add: inv_marks_def closer_defs)
next
  fix k
  show "inv_marks (tr @ [fst (worker_step e k s)]) (snd (worker_step e k s))"
    using assms(1)
    by (cases "wpc (workers s ! k)")
       (simp_all add: inv_marks_def worker_defs split: list.split option.split)
qed

lemma inv_fifo_step:
  assumes "inv_fifo tr s" "inv_early tr s"
  shows "inv_fifo (tr @ [fst (step cfg e s)]) (snd (step cfg e s))"
proof (rule step_lift)
  show "inv_fifo (tr @ [Tau]) s" using assms by (simp add: inv_fifo_def)
  show "inv_fifo (tr @ [fst (main_step cfg e s)]) (snd (main_step cfg e s))"
    using assms
    by (cases "mpc s")
       (simp_all add: inv_fifo_def inv_early_def main_defs split: option.split)
  show "inv_fifo (tr @ [fst (closer_step s)]) (snd (closer_step s))"
    using assms
    by (cases "closer s") (auto simp add: inv_fifo_def closer_defs)
next
  fix k
  show "inv_fifo (tr @ [fst (worker_step e k s)]) (snd (worker_step e k s))"
    using assms(1)
    by (cases "wpc (workers s ! k)")
       (simp_all add: inv_fifo_def worker_defs split: list.split option.split)
qed

lemma inv_exit_step:
  assumes "inv_exit s" "inv_early tr s"
  shows "inv_exit (snd (step cfg e s))"
proof (rule step_lift [where P = "\<lambda>tr s. inv_exit s" and tr = tr])
  show "inv_exit s" by fact
  show "inv_exit (snd (main_step cfg e s))"
    using assms
    by (cases "mpc s")
       (simp_all add: inv_exit_def inv_early_def main_defs nth_append split: option.split)
  show "inv_exit (snd (closer_step s))"
    using assms
    by (cases "closer s") (auto simp add: inv_exit_def closer_defs)
next
  fix k
  assume k: "k < length (workers s)"
  show "inv_exit (snd (worker_step e k s))"
    using assms(1) k
    by (cases "wpc (workers s ! k)")
       (auto simp add: inv_exit_def worker_defs nth_list_update split: list.split option.split)
qed

lemma inv_drained_step:
  assumes "inv_drained tr s" "inv_early tr s"
  shows "inv_drained (tr @ [fst (step cfg e s)]) (snd (step cfg e s))"
proof (rule step_lift)
  show "inv_drained (tr @ [Tau]) s" using assms by (simp add: inv_drained_def)
  show "inv_drained (tr @ [fst (main_step cfg e s)]) (snd (main_step cfg e s))"
    using assms
    by (cases "mpc s")
       (simp_all add: inv_drained_def inv_early_def main_defs split: option.split)
  show "inv_drained (tr @ [fst (closer_step s)]) (snd (closer_step s))"
    using assms
    by (cases "closer s") (auto simp add: inv_drained_def closer_defs)
next
  fix k
  show "inv_drained (tr @ [fst (worker_step e k s)]) (snd (worker_step e k s))"
    using assms(1)
    by (cases "wpc (workers s ! k)")
       (auto simp add: inv_drained_def worker_defs split: list.split option.split)
qed

lemma inv_logopen_step:
  assumes "inv_logopen s"
  shows "inv_logopen (snd (step cfg e s))"
proof (rule step_lift [where P = "\<lambda>tr s. inv_logopen s" and tr = "[]"])
  show "inv_logopen s" by fact
  show "inv_logopen (snd (main_step cfg e s))"
    using assms
    by (cases "mpc s") (simp_all add: inv_logopen_def main_defs split: option.split)
  show "inv_logopen (snd (closer_step s))"
    using assms
    by (cases "closer s") (auto simp add: inv_logopen_def closer_defs)
next
  fix k
  show "inv_logopen (snd (worker_step e k s))"
    using assms
    by (cases "wpc (workers s ! k)")
       (auto simp add: inv_logopen_def worker_defs split: list.split option.split)
qed

lemma inv_nocfail_step:
  assumes "inv_nocfail tr s"
  shows "inv_nocfail (tr @ [fst (step cfg e s)]) (snd (step cfg e s))"
proof (rule step_lift)
  show "inv_nocfail (tr @ [Tau]) s" using assms by (simp add: inv_nocfail_def)
  show "inv_nocfail (tr @ [fst (main_step cfg e s)]) (snd (main_step cfg e s))"
    using assms
    by (cases "mpc s")
       (simp_all add: inv_nocfail_def main_defs nth_append split: option.split)
  show "inv_nocfail (tr @ [fst (closer_step s)]) (snd (closer_step s))"
    using assms
    by (cases "closer s") (auto simp add: inv_nocfail_def closer_defs)
next
  fix k
  assume k: "k < length (workers s)"
  show "inv_nocfail (tr @ [fst (worker_step e k s)]) (snd (worker_step e k s))"
    using assms(1) k
    by (cases "wpc (workers s ! k)")
       (auto simp add: inv_nocfail_def worker_defs nth_list_update split: list.split option.split)
qed

text \<open>The worker at index \<open>k\<close>, with the workers before and after it.\<close>

lemma nth_split: "k < length xs \<Longrightarrow> \<exists>pre x post. xs = pre @ x # post \<and> k = length pre"
proof -
  assume k: "k < length xs"
  then have "xs = take k xs @ xs ! k # drop (Suc k) xs" by (rule id_take_nth_drop)
  moreover have "k = length (take k xs)" using k by simp
  ultimately show ?thesis by blast
qed

lemma holding_simps [simp]:
  "holding [] = {#}" "holding (w # ws) = hold w + holding ws"
  "holding (ws @ ws') = holding ws + holding ws'"
  by (simp_all add: holding_def)

lemma inv_acct_step:
  assumes "inv_acct tr s" "inv_early tr s"
  shows "inv_acct (tr @ [fst (step cfg e s)]) (snd (step cfg e s))"
proof (rule step_lift)
  show "inv_acct (tr @ [Tau]) s" using assms by (simp add: inv_acct_def)
  show "inv_acct (tr @ [fst (main_step cfg e s)]) (snd (main_step cfg e s))"
    using assms
    by (cases "mpc s")
       (simp_all add: inv_acct_def inv_early_def main_defs hold_def split: option.split)
  show "inv_acct (tr @ [fst (closer_step s)]) (snd (closer_step s))"
    using assms
    by (cases "closer s") (auto simp add: inv_acct_def closer_defs)
next
  fix k
  assume "k < length (workers s)"
  then obtain pre w post where ws: "workers s = pre @ w # post" and k: "k = length pre"
    using nth_split by blast
  show "inv_acct (tr @ [fst (worker_step e k s)]) (snd (worker_step e k s))"
    using assms(1)
    by (cases "wpc w")
       (simp_all add: inv_acct_def worker_defs ws k hold_def split: list.split option.split)
qed

lemma processTask_result_line: "processTask w t = (result_line (Worker_ID w) t, None)"
  by (simp add: processTask_def result_line_def)

lemmas worker_defs' = worker_step_def Let_def GetTask_def chan_recv_def processTask_result_line
  WriteResult_def file_Write_def

lemma inv_results_step:
  assumes "inv_results tr s" "inv_early tr s"
  shows "inv_results (tr @ [fst (step cfg e s)]) (snd (step cfg e s))"
proof (rule step_lift)
  show "inv_results (tr @ [Tau]) s" using assms by (simp add: inv_results_def)
  show "inv_results (tr @ [fst (main_step cfg e s)]) (snd (main_step cfg e s))"
    using assms
    by (cases "mpc s")
       (simp_all add: inv_results_def inv_early_def main_defs split: option.split)
  show "inv_results (tr @ [fst (closer_step s)]) (snd (closer_step s))"
    using assms
    by (cases "closer s") (auto simp add: inv_results_def closer_defs)
next
  fix k
  assume "k < length (workers s)"
  then obtain pre w post where ws: "workers s = pre @ w # post" and k: "k = length pre"
    using nth_split by blast
  show "inv_results (tr @ [fst (worker_step e k s)]) (snd (worker_step e k s))"
    using assms(1)
    by (cases "wpc w")
       (simp_all add: inv_results_def worker_defs' ws k result_entry_def
          split: list.split option.split)
qed

lemma processed_sum_simps [simp]:
  "processed_sum [] = 0" "processed_sum (w # ws) = unat (tasksProcessed w) + processed_sum ws"
  "processed_sum (ws @ ws') = processed_sum ws + processed_sum ws'"
  by (simp_all add: processed_sum_def)

lemma pending_simps [simp]:
  "pending [] = 0" "pending (w # ws) = at_emit w + pending ws"
  "pending (ws @ ws') = pending ws + pending ws'"
  by (simp_all add: pending_def)

lemma pending_le_holding: "pending ws \<le> size (holding ws)"
  by (induction ws) (auto simp: at_emit_def hold_def split: wpc.splits)

lemma inv_count_step:
  assumes "inv_count tr s" "inv_early tr s" "inv_acct tr s" "inv_fifo tr s" "inv_enq cfg tr"
  shows "inv_count (tr @ [fst (step cfg e s)]) (snd (step cfg e s))"
proof (rule step_lift)
  show "inv_count (tr @ [Tau]) s" using assms by (simp add: inv_count_def)
  show "inv_count (tr @ [fst (main_step cfg e s)]) (snd (main_step cfg e s))"
    using assms(1,2)
    by (cases "mpc s")
       (simp_all add: inv_count_def inv_early_def main_defs at_emit_def split: option.split)
  show "inv_count (tr @ [fst (closer_step s)]) (snd (closer_step s))"
    using assms(1)
    by (cases "closer s") (auto simp add: inv_count_def closer_defs)
next
  fix k
  assume "k < length (workers s)"
  then obtain pre w post where ws: "workers s = pre @ w # post" and k: "k = length pre"
    using nth_split by blast
  have bound: "unat (tasksProcessed w + 1) = Suc (unat (tasksProcessed w))" if "wpc w = WCompute t" for t
  proof -
    have "unat (tasksProcessed w) \<le> processed_sum (workers s)" by (simp add: ws)
    also have "\<dots> = length (emits tr) + length (efails tr) + (pending pre + pending post)"
      using assms(1) that by (simp add: inv_count_def ws at_emit_def)
    also have "\<dots> \<le> length (emits tr) + length (efails tr) + (size (holding pre) + size (holding post))"
      using pending_le_holding [of pre] pending_le_holding [of post] by linarith
    also have "\<dots> < size (mset (emits tr) + mset (efails tr) + mset (cfails tr) + holding (workers s))"
      using that by (simp add: ws hold_def)
    also have "\<dots> = length (deqs tr)"
      using assms(3) by (simp add: inv_acct_def flip: size_mset)
    also have "\<dots> \<le> length (enqs tr)"
      using arg_cong [OF assms(4) [unfolded inv_fifo_def], of length] by simp
    also have "\<dots> \<le> nat (sint (NUM_TASKS cfg))"
      using assms(5) by (simp add: inv_enq_def)
    also have "\<dots> < 2^63" by (rule nat_sint_less)
    finally show ?thesis by (rule unat_succ)
  qed
  show "inv_count (tr @ [fst (worker_step e k s)]) (snd (worker_step e k s))"
    using assms(1) bound
    by (cases "wpc w")
       (auto simp add: inv_count_def worker_defs' ws k at_emit_def split: list.split option.split)
qed

lemma alive_count_simps [simp]:
  "alive_count [] = 0" "alive_count (w # ws) = alive w + alive_count ws"
  "alive_count (ws @ ws') = alive_count ws + alive_count ws'"
  by (simp_all add: alive_count_def)

lemma alive_count_0: "alive_count ws = 0 \<Longrightarrow> w \<in> set ws \<Longrightarrow> wpc w = WExit"
  by (induction ws) (auto simp: alive_def split: if_splits)

lemma inv_wg_step:
  assumes "inv_wg s" "inv_early tr s"
  shows "inv_wg (snd (step cfg e s))"
proof (rule step_lift [where P = "\<lambda>tr s. inv_wg s" and tr = tr])
  show "inv_wg s" by fact
  show "inv_wg (snd (main_step cfg e s))"
    using assms
    by (cases "mpc s")
       (simp_all add: inv_wg_def inv_early_def main_defs alive_def split: option.split)
  show "inv_wg (snd (closer_step s))"
    using assms(1)
    by (cases "closer s") (auto simp add: inv_wg_def closer_defs)
next
  fix k
  assume "k < length (workers s)"
  then obtain pre w post where ws: "workers s = pre @ w # post" and k: "k = length pre"
    using nth_split by blast
  show "inv_wg (snd (worker_step e k s))"
    using assms(1)
    by (cases "wpc w")
       (simp_all add: inv_wg_def worker_defs' ws k alive_def split: list.split option.split)
qed

lemma inv_finished_step:
  assumes "inv_finished s" "inv_wg s"
  shows "inv_finished (snd (step cfg e s))"
proof (rule step_lift [where P = "\<lambda>tr s. inv_finished s" and tr = "[]"])
  show "inv_finished s" by fact
  show "inv_finished (snd (main_step cfg e s))"
  proof (cases "mpc s")
    case MWait
    with assms(2) show ?thesis
      by (auto simp add: inv_finished_def inv_wg_def main_defs dest: alive_count_0)
  qed (use assms(1) in \<open>simp_all add: inv_finished_def main_defs split: option.split\<close>)
  show "inv_finished (snd (closer_step s))"
    using assms(1)
    by (cases "closer s") (auto simp add: inv_finished_def closer_defs)
next
  fix k
  assume "k < length (workers s)"
  then obtain pre w post where ws: "workers s = pre @ w # post" and k: "k = length pre"
    using nth_split by blast
  show "inv_finished (snd (worker_step e k s))"
    using assms(1)
    by (cases "wpc w")
       (auto simp add: inv_finished_def worker_defs' ws k split: list.split option.split)
qed

lemma ids_upto_0 [simp]: "ids_upto 0 = []"
  by (simp add: ids_upto_def)

lemma ids_upto_Suc: "ids_upto (Suc n) = ids_upto n @ [of_nat (Suc n)]"
  by (simp add: ids_upto_def)

lemma inv_ids_main:
  assumes "inv_ids cfg s" "inv_early tr s" "inv_done cfg tr s" "sint (NUM_WORKERS cfg) < 2^63 - 1"
  shows "inv_ids cfg (snd (main_step cfg e s))"
proof (cases "mpc s")
  case (MSpawnAdd i)
  from MSpawnAdd assms(1) have u: "unat i = Suc (length (workers s))"
    and l: "length (workers s) \<le> nat (sint (NUM_WORKERS cfg))"
    by (simp_all add: inv_ids_def)
  show ?thesis
  proof (cases "i \<le>s NUM_WORKERS cfg")
    case True
    with u l have "length (workers s) < nat (sint (NUM_WORKERS cfg))"
      using assms(4) by (rule loop_test)
    with True MSpawnAdd assms(1,3) show ?thesis
      by (simp add: inv_ids_def inv_done_def main_defs)
  next
    case False
    with u l have "length (workers s) = nat (sint (NUM_WORKERS cfg))"
      by (rule loop_exit)
    with False MSpawnAdd assms(1,3) show ?thesis
      by (simp add: inv_ids_def inv_done_def main_defs)
  qed
next
  case (MSpawnGo i)
  from MSpawnGo assms(1) have u: "unat i = Suc (length (workers s))"
    and l: "length (workers s) < nat (sint (NUM_WORKERS cfg))"
    by (simp_all add: inv_ids_def)
  have "nat (sint (NUM_WORKERS cfg)) < 2^63" by (rule nat_sint_less)
  with u l have "unat i < 2^63" by simp
  then have "unat (i + 1) = Suc (unat i)" by (rule unat_succ)
  moreover from u have "of_nat (Suc (length (workers s))) = i" by (rule of_nat_unat_eq)
  ultimately show ?thesis
    using MSpawnGo assms(1,3) u l
    by (simp add: inv_ids_def inv_done_def main_defs ids_upto_Suc)
qed (use assms(1,2,3) in \<open>auto simp add: inv_ids_def inv_early_def inv_done_def main_defs
      split: option.split\<close>)

lemma inv_ids_step:
  assumes "inv_ids cfg s" "inv_early tr s" "inv_done cfg tr s" "sint (NUM_WORKERS cfg) < 2^63 - 1"
  shows "inv_ids cfg (snd (step cfg e s))"
proof (rule step_lift [where P = "\<lambda>tr s. inv_ids cfg s" and tr = tr])
  show "inv_ids cfg s" by fact
  show "inv_ids cfg (snd (main_step cfg e s))" using assms by (rule inv_ids_main)
  show "inv_ids cfg (snd (closer_step s))"
    using assms(1)
    by (cases "closer s") (auto simp add: inv_ids_def closer_defs)
next
  fix k
  assume "k < length (workers s)"
  then obtain pre w post where ws: "workers s = pre @ w # post" and k: "k = length pre"
    using nth_split by blast
  from assms(3) have "\<not> spawn_pc (mpc s) \<or> closer s = CAbsent" by (auto simp: inv_done_def)
  show "inv_ids cfg (snd (worker_step e k s))"
    using assms(1)
    by (cases "wpc w")
       (simp_all add: inv_ids_def worker_defs' ws k split: list.split option.split)
qed

lemma inv_deq_ids_step:
  assumes "inv_deq_ids tr s" "inv_early tr s"
  shows "inv_deq_ids (tr @ [fst (step cfg e s)]) (snd (step cfg e s))"
proof (rule step_lift)
  show "inv_deq_ids (tr @ [Tau]) s" using assms by (simp add: inv_deq_ids_def)
  show "inv_deq_ids (tr @ [fst (main_step cfg e s)]) (snd (main_step cfg e s))"
    using assms
    by (cases "mpc s")
       (auto simp add: inv_deq_ids_def inv_early_def main_defs split: option.split)
  show "inv_deq_ids (tr @ [fst (closer_step s)]) (snd (closer_step s))"
    using assms
    by (cases "closer s") (auto simp add: inv_deq_ids_def closer_defs)
next
  fix k
  assume "k < length (workers s)"
  then obtain pre w post where ws: "workers s = pre @ w # post" and k: "k = length pre"
    using nth_split by blast
  show "inv_deq_ids (tr @ [fst (worker_step e k s)]) (snd (worker_step e k s))"
    using assms(1)
    by (cases "wpc w")
       (auto simp add: inv_deq_ids_def worker_defs' ws k split: list.split option.split)
qed

subsection \<open>Every run keeps the invariants\<close>

lemma inv_init: "inv cfg [] init"
  by (simp add: inv_def init_def inv_early_def inv_preload_def inv_enq_def inv_done_def
        inv_marks_def inv_fifo_def inv_exit_def inv_nocfail_def inv_acct_def inv_results_def
        inv_count_def inv_wg_def inv_finished_def inv_deq_ids_def inv_drained_def inv_logopen_def
        os_Create_def)

lemma inv_step:
  assumes "inv cfg tr s"
  shows "inv cfg (tr @ [fst (step cfg e s)]) (snd (step cfg e s))"
  using assms unfolding inv_def
  by (intro conjI inv_early_step inv_preload_step inv_enq_step inv_done_step inv_marks_step
        inv_fifo_step inv_exit_step [where tr = tr] inv_nocfail_step inv_acct_step
        inv_results_step inv_count_step [where cfg = cfg] inv_wg_step [where tr = tr]
        inv_finished_step inv_deq_ids_step inv_drained_step inv_logopen_step) simp_all

theorem inv_run: "inv cfg (trace cfg init es) (run cfg init es)"
proof (induction es rule: rev_induct)
  case Nil
  show ?case by (simp add: inv_init)
next
  case (snoc e es)
  then show ?case by (simp add: inv_step)
qed

lemma inv_ids_run:
  assumes "sint (NUM_WORKERS cfg) < 2^63 - 1"
  shows "inv_ids cfg (run cfg init es)"
proof (induction es rule: rev_induct)
  case Nil
  show ?case by (simp add: inv_ids_def init_def)
next
  case (snoc e es)
  have "inv cfg (trace cfg init es) (run cfg init es)" by (rule inv_run)
  then have "inv_early (trace cfg init es) (run cfg init es)"
    "inv_done cfg (trace cfg init es) (run cfg init es)"
    by (simp_all add: inv_def)
  with snoc assms show ?case by (simp add: inv_ids_step)
qed

lemma run_append: "run cfg s (es @ es') = run cfg (run cfg s es) es'"
  by (induction es arbitrary: s) simp_all

lemma trace_append: "trace cfg s (es @ es') = trace cfg s es @ trace cfg (run cfg s es) es'"
  by (induction es arbitrary: s) simp_all

lemma unat_of_nat_small: "k < 2^63 \<Longrightarrow> unat (of_nat k :: goint) = k"
  by (simp add: unat_of_nat)

lemma sint_of_nat_small: "k < 2^63 \<Longrightarrow> sint (of_nat k :: goint) = int k"
  by (simp add: sint_small unat_of_nat_small)

lemma sint_ids_upto: "n < 2^63 \<Longrightarrow> map sint (ids_upto n) = map int [1..<Suc n]"
  by (simp add: ids_upto_def sint_of_nat_small del: upt_Suc)

lemma distinct_ids_upto: "n < 2^63 \<Longrightarrow> distinct (ids_upto n)"
proof -
  assume "n < 2^63"
  then have "distinct (map sint (ids_upto n))"
    by (simp add: sint_ids_upto distinct_map del: upt_Suc)
  then show ?thesis by (simp add: distinct_map)
qed

lemma ID_preload_seq: "map ID (preload_seq n) = ids_upto n"
  by (simp add: preload_seq_def ids_upto_def preload_task_def del: upt_Suc)

lemma set_preload_seq:
  "t \<in> set (preload_seq n) \<longleftrightarrow> (\<exists>k. 1 \<le> k \<and> k \<le> n \<and> t = preload_task (of_nat k))"
  by (auto simp add: preload_seq_def simp del: upt_Suc)

lemma DataValue_preload_seq: "t \<in> set (preload_seq n) \<Longrightarrow> DataValue t = ID t * 100"
  by (auto simp add: set_preload_seq preload_task_def)

lemma distinct_submset: "mset ys \<subseteq># mset xs \<Longrightarrow> distinct xs \<Longrightarrow> distinct ys"
proof -
  assume sub: "mset ys \<subseteq># mset xs" and d: "distinct xs"
  have "count (mset ys) a = (if a \<in> set ys then 1 else 0)" for a
  proof (cases "a \<in> set ys")
    case True
    then have "1 \<le> count (mset ys) a" by (simp add: count_greater_eq_one_iff)
    moreover have "count (mset ys) a \<le> count (mset xs) a" using sub by (rule mset_subset_eq_count)
    moreover have "count (mset xs) a \<le> 1" using d by (simp add: distinct_count_atmost_1)
    ultimately have "count (mset ys) a = 1" by linarith
    with True show ?thesis by simp
  next
    case False
    then show ?thesis by (simp add: count_mset_0_iff)
  qed
  then show ?thesis by (simp add: distinct_count_atmost_1)
qed

lemma inv_parts:
  assumes "inv cfg tr s"
  shows "inv_early tr s" "inv_preload cfg tr s" "inv_enq cfg tr" "inv_done cfg tr s"
    "inv_marks tr s" "inv_fifo tr s" "inv_exit s" "inv_nocfail tr s" "inv_acct tr s"
    "inv_results tr s" "inv_count tr s" "inv_wg s" "inv_finished s" "inv_deq_ids tr s"
    "inv_drained tr s" "inv_logopen s"
  using assms by (simp_all add: inv_def)

subsection \<open>Runs that have ended\<close>

lemma holding_exit: "\<forall>w \<in> set ws. wpc w = WExit \<Longrightarrow> holding ws = {#}"
  by (induction ws) (simp_all add: hold_def)

lemma pending_exit: "\<forall>w \<in> set ws. wpc w = WExit \<Longrightarrow> pending ws = 0"
  by (induction ws) (simp_all add: at_emit_def)

lemma processed_member: "w \<in> set ws \<Longrightarrow> unat (tasksProcessed w) \<le> processed_sum ws"
  by (induction ws) auto

lemma processed_bound:
  assumes "inv cfg tr s"
  shows "processed_sum (workers s) < 2^63"
proof -
  have "processed_sum (workers s) = length (emits tr) + length (efails tr) + pending (workers s)"
    using inv_parts(11) [OF assms] by (simp add: inv_count_def)
  also have "\<dots> \<le> length (emits tr) + length (efails tr) + size (holding (workers s))"
    using pending_le_holding [of "workers s"] by simp
  also have "\<dots> \<le> size (mset (emits tr) + mset (efails tr) + mset (cfails tr) + holding (workers s))"
    by simp
  also have "\<dots> = length (deqs tr)"
    using inv_parts(9) [OF assms] by (simp add: inv_acct_def flip: size_mset)
  also have "\<dots> \<le> length (enqs tr)"
    using arg_cong [OF inv_parts(6) [OF assms, unfolded inv_fifo_def], of length] by simp
  also have "\<dots> \<le> nat (sint (NUM_TASKS cfg))"
    using inv_parts(3) [OF assms] by (simp add: inv_enq_def)
  also have "\<dots> < 2^63" by (rule nat_sint_less)
  finally show ?thesis .
qed

lemma sint_sum:
  "\<forall>w \<in> set ws. unat (tasksProcessed w) < 2^63 \<Longrightarrow>
   sum_list (map (\<lambda>w. sint (tasksProcessed w)) ws) = int (processed_sum ws)"
  by (induction ws) (simp_all add: sint_small)

lemma reported_sum:
  assumes "inv cfg tr s"
  shows "sum_list (map (\<lambda>w. sint (tasksProcessed w)) (workers s)) = int (processed_sum (workers s))"
proof (rule sint_sum, rule ballI)
  fix w assume "w \<in> set (workers s)"
  then have "unat (tasksProcessed w) \<le> processed_sum (workers s)" by (rule processed_member)
  then show "unat (tasksProcessed w) < 2^63"
    using processed_bound [OF assms] by (rule order.strict_trans1)
qed

text \<open>
  When \<^verbatim>\<open>main\<close> has returned, every delivered task has been written or its write has
  failed; if there is a worker at all, every task of the preload has been delivered.
\<close>

lemma run_ended:
  assumes i: "inv cfg tr s" and m: "finished_pc (mpc s)"
  shows "mset (deqs tr) = mset (emits tr) + mset (efails tr)"
    and "workers s \<noteq> [] \<Longrightarrow> map snd (deqs tr) = preload_seq (nat (sint (NUM_TASKS cfg)))"
proof -
  have ex: "\<forall>w \<in> set (workers s). wpc w = WExit"
    using inv_parts(13) [OF i] m by (simp add: inv_finished_def)
  then have "holding (workers s) = {#}" by (rule holding_exit)
  moreover have "cfails tr = []" using inv_parts(8) [OF i] by (simp add: inv_nocfail_def)
  ultimately show "mset (deqs tr) = mset (emits tr) + mset (efails tr)"
    using inv_parts(9) [OF i] by (simp add: inv_acct_def)
  assume ne: "workers s \<noteq> []"
  then have "0 < length (workers s)" by simp
  moreover have "exited (wpc (workers s ! 0))" using ex ne by (cases "workers s") simp_all
  ultimately have "buf (taskQueue s) = []"
    using inv_parts(7) [OF i] by (auto simp add: inv_exit_def)
  then have "enqs tr = map snd (deqs tr)"
    using inv_parts(6) [OF i] by (simp add: inv_fifo_def)
  moreover have "length (enqs tr) = nat (sint (NUM_TASKS cfg))"
    using inv_parts(4) [OF i] ne by (simp add: inv_done_def)
  moreover have "enqs tr = preload_seq (length (enqs tr))"
    using inv_parts(3) [OF i] by (simp add: inv_enq_def)
  ultimately show "map snd (deqs tr) = preload_seq (nat (sint (NUM_TASKS cfg)))"
    by (simp only:)
qed

lemma sint_transform:
  assumes "- (2^63) \<le> sint v * 2 + sint i" "sint v * 2 + sint i < 2^63"
  shows "sint ((v::goint) * 2 + i) = sint v * 2 + sint i"
proof -
  have "sint (v * 2 + i) = signed_take_bit 63 (sint (v * 2) + sint i)"
    by (simp add: sint_word_ariths word_size)
  also have "sint (v * 2) = signed_take_bit 63 (sint v * 2)"
    by (simp add: sint_word_ariths word_size)
  also have "signed_take_bit 63 (signed_take_bit 63 (sint v * 2) + sint i)
             = signed_take_bit 63 (signed_take_bit 63 (sint v * 2) + signed_take_bit 63 (sint i))"
    using sint_ge [of i] sint_lt [of i] by (simp add: signed_take_bit_int_eq_self)
  also have "\<dots> = signed_take_bit (63::nat) (sint v * 2 + sint i)"
    by (rule signed_take_bit_add)
  also have "\<dots> = sint v * 2 + sint i"
    using assms by (simp add: signed_take_bit_int_eq_self)
  finally show ?thesis .
qed

lemma no_worker_no_deq:
  assumes "inv cfg tr s" and "workers s = []"
  shows "deqs tr = []"
proof (cases "deqs tr")
  case Nil
  then show ?thesis .
next
  case (Cons p ps)
  then have "p \<in> set (deqs tr)" by simp
  then have "fst p \<in> Worker_ID ` set (workers s)"
    using inv_parts(14) [OF assms(1)] by (simp add: inv_deq_ids_def)
  with assms(2) show ?thesis by simp
qed

lemma drains_member: "DeqClosed w \<in> set tr \<Longrightarrow> drains tr \<noteq> []"
  by (induction tr) (auto simp add: drains_def)

text \<open>The tasks written are among the tasks delivered, which are the first tasks enqueued.\<close>

lemma emits_sub_deqs: "inv cfg tr s \<Longrightarrow> mset (emits tr) \<subseteq># mset (deqs tr)"
  by (simp add: inv_def inv_acct_def)

lemma deqs_prefix:
  assumes "inv cfg tr s"
  shows "\<exists>n. n \<le> nat (sint (NUM_TASKS cfg)) \<and> map snd (deqs tr) @ buf (taskQueue s) = preload_seq n"
  using inv_parts(3) [OF assms] inv_parts(6) [OF assms]
  by (auto simp add: inv_enq_def inv_fifo_def)

lemma distinct_deq_ids:
  assumes "inv cfg tr s"
  shows "distinct (map (\<lambda>p. ID (snd p)) (deqs tr))"
proof -
  from deqs_prefix [OF assms] obtain n where n: "n \<le> nat (sint (NUM_TASKS cfg))"
    and p: "map snd (deqs tr) @ buf (taskQueue s) = preload_seq n" by blast
  have "n < 2^63" using n nat_sint_less by (rule order.strict_trans1)
  then have "distinct (map ID (preload_seq n))" by (simp add: ID_preload_seq distinct_ids_upto)
  then have "distinct (map ID (map snd (deqs tr) @ buf (taskQueue s)))" by (simp only: p)
  then show ?thesis by (simp add: comp_def)
qed

lemma deq_task_range:
  assumes "inv cfg tr s" and "p \<in> set (deqs tr)"
  shows "snd p \<in> set (enqs tr) \<and> 1 \<le> sint (ID (snd p)) \<and> sint (ID (snd p)) \<le> sint (NUM_TASKS cfg)"
proof -
  from deqs_prefix [OF assms(1)] obtain n where n: "n \<le> nat (sint (NUM_TASKS cfg))"
    and p: "map snd (deqs tr) @ buf (taskQueue s) = preload_seq n" by blast
  have e: "enqs tr = map snd (deqs tr) @ buf (taskQueue s)"
    using inv_parts(6) [OF assms(1)] by (simp add: inv_fifo_def)
  have "snd p \<in> set (map snd (deqs tr) @ buf (taskQueue s))" using assms(2) by auto
  then have m: "snd p \<in> set (preload_seq n)" by (simp only: p)
  then obtain k where k: "1 \<le> k" "k \<le> n" "snd p = preload_task (of_nat k)"
    by (auto simp add: set_preload_seq)
  have "n < 2^63" using n nat_sint_less by (rule order.strict_trans1)
  with k(2) have "k < 2^63" by simp
  then have "sint (ID (snd p)) = int k" using k(3) by (simp add: preload_task_def sint_of_nat_small)
  moreover have "int k \<le> sint (NUM_TASKS cfg)" using k(1,2) n by linarith
  moreover have "snd p \<in> set (enqs tr)" using m e p by simp
  ultimately show ?thesis using k(1) by simp
qed

section \<open>The claims\<close>

text \<open>
  Claim C1. The queue is closed only after the producer has finished enqueuing: in every run,
  once the goroutine that sleeps and then closes the queue has been started, or the close
  has been issued, every task of the preload has been enqueued and no later step enqueues
  anything; the close is issued only by that goroutine. The timer therefore starts after
  production has ended and cannot race against it. (How long the sleep lasts is not part
  of the model: the close may be scheduled at any time after the timer has started.)
\<close>

theorem close_after_preload:
  assumes "StartTimer \<in> set (trace cfg init es) \<or> Cls \<in> set (trace cfg init es)"
  shows "enqs (trace cfg init es) = preload_seq (nat (sint (NUM_TASKS cfg)))
         \<and> enqs (trace cfg (run cfg init es) es') = []
         \<and> (Cls \<in> set (trace cfg init es) \<longrightarrow> StartTimer \<in> set (trace cfg init es))"
proof -
  define tr where "tr = trace cfg init es"
  define s where "s = run cfg init es"
  have i: "inv cfg tr s" unfolding tr_def s_def by (rule inv_run)
  note m = inv_parts(5) [OF i, unfolded inv_marks_def]
  note d = inv_parts(4) [OF i, unfolded inv_done_def]
  have t: "Cls \<in> set tr \<longrightarrow> StartTimer \<in> set tr" using m d by auto
  with assms have "closer s \<noteq> CAbsent" using m by (auto simp: tr_def)
  then have len: "length (enqs tr) = nat (sint (NUM_TASKS cfg))" using d by simp
  then have e: "enqs tr = preload_seq (nat (sint (NUM_TASKS cfg)))"
    using inv_parts(3) [OF i] by (simp add: inv_enq_def)
  have "inv cfg (trace cfg init (es @ es')) (run cfg init (es @ es'))" by (rule inv_run)
  then have "length (enqs (trace cfg init (es @ es'))) \<le> nat (sint (NUM_TASKS cfg))"
    by (simp add: inv_def inv_enq_def)
  then have "enqs (trace cfg s es') = []"
    using len by (simp add: trace_append tr_def s_def)
  with e t show ?thesis by (simp add: tr_def s_def)
qed

theorem close_after_preload_witness:
  "Cls \<in> set (trace demo_config init demo_prefix)
   \<and> enqs (trace demo_config init demo_prefix) = preload_seq 1
   \<and> enqs (trace demo_config (run demo_config init demo_prefix) demo_rest) = []"
proof -
  have c: "Cls \<in> set (trace demo_config init demo_prefix)" by code_simp
  have n: "nat (sint (NUM_TASKS demo_config)) = 1" by (simp add: demo_config_def)
  from close_after_preload [of demo_config demo_prefix demo_rest] c n show ?thesis by simp
qed

text \<open>
  Claim C2, as stated, fails: \<^verbatim>\<open>tasksProcessed\<close> is incremented before the result is
  written, so a task whose write fails is counted although it adds no line. In the run
  below the only write fails: the worker reports 1 and the result file is empty.
\<close>

theorem processed_count_counterexample:
  "mpc (run demo_config init (demo_prefix @ demo_failing_rest)) = MExit
   \<and> map wpc (workers (run demo_config init (demo_prefix @ demo_failing_rest))) = [WExit]
   \<and> map (\<lambda>w. sint (tasksProcessed w)) (workers (run demo_config init (demo_prefix @ demo_failing_rest))) = [1]
   \<and> content (rw_file (resultWriter (run demo_config init (demo_prefix @ demo_failing_rest)))) = []"
  by (intro conjI; code_simp)

text \<open>
  Claim C2, amended. In every run the counts that the workers hold add up to the number of
  entries written to the result file, plus the number of result writes that have failed,
  plus the number of workers that have counted a task and are about to write it. When
  every worker has terminated, the sum of the reported counts is the number of lines
  written plus the number of failed writes; it is the number of lines when no write failed.
\<close>

theorem processed_count_accounting:
  "sum_list (map (\<lambda>w. sint (tasksProcessed w)) (workers (run cfg init es)))
     = int (length (content (rw_file (resultWriter (run cfg init es)))))
       + int (length (efails (trace cfg init es)))
       + int (pending (workers (run cfg init es)))
   \<and> ((\<forall>w \<in> set (workers (run cfg init es)). wpc w = WExit) \<longrightarrow>
        sum_list (map (\<lambda>w. sint (tasksProcessed w)) (workers (run cfg init es)))
          = int (length (content (rw_file (resultWriter (run cfg init es)))))
            + int (length (efails (trace cfg init es))))"
proof -
  define tr where "tr = trace cfg init es"
  define s where "s = run cfg init es"
  have i: "inv cfg tr s" unfolding tr_def s_def by (rule inv_run)
  have "processed_sum (workers s) = length (emits tr) + length (efails tr) + pending (workers s)"
    using inv_parts(11) [OF i] by (simp add: inv_count_def)
  moreover have "length (content (rw_file (resultWriter s))) = length (emits tr)"
    using inv_parts(10) [OF i] by (simp add: inv_results_def)
  ultimately have a: "sum_list (map (\<lambda>w. sint (tasksProcessed w)) (workers s))
     = int (length (content (rw_file (resultWriter s)))) + int (length (efails tr))
       + int (pending (workers s))"
    by (simp add: reported_sum [OF i])
  have "(\<forall>w \<in> set (workers s). wpc w = WExit) \<longrightarrow> pending (workers s) = 0"
    using pending_exit by blast
  with a show ?thesis unfolding tr_def s_def by simp
qed

theorem processed_count_accounting_witness:
  "map wpc (workers (run demo_config init (demo_prefix @ demo_failing_rest))) = [WExit]
   \<and> length (efails (trace demo_config init (demo_prefix @ demo_failing_rest))) = 1
   \<and> sum_list (map (\<lambda>w. sint (tasksProcessed w))
        (workers (run demo_config init (demo_prefix @ demo_failing_rest))))
      = int (length (content (rw_file (resultWriter
          (run demo_config init (demo_prefix @ demo_failing_rest))))))
        + int (length (efails (trace demo_config init (demo_prefix @ demo_failing_rest))))"
proof -
  have m: "map wpc (workers (run demo_config init (demo_prefix @ demo_failing_rest))) = [WExit]"
    by code_simp
  have f: "length (efails (trace demo_config init (demo_prefix @ demo_failing_rest))) = 1"
    by code_simp
  from m have "set (map wpc (workers (run demo_config init (demo_prefix @ demo_failing_rest))))
      = {WExit}" by simp
  then have h: "\<forall>w \<in> set (workers (run demo_config init (demo_prefix @ demo_failing_rest))).
      wpc w = WExit" by auto
  from processed_count_accounting [of demo_config "demo_prefix @ demo_failing_rest"] h m f
  show ?thesis by blast
qed

text \<open>
  Claim C3, as stated, fails for the Java \<^verbatim>\<open>getTask\<close>: the Java queue has no closed
  state, and \<^verbatim>\<open>getTask\<close> returns null on a queue that is empty and that nothing has
  closed, such as the queue the constructor returns.
\<close>

theorem dequeue_counterexample:
  "fst (Java_getTask Java_TaskQueue_new) = None"
  by (simp add: Java_getTask_def Java_TaskQueue_new_def)

text \<open>
  Claim C3, amended. The Go \<^verbatim>\<open>GetTask\<close> returns \<^verbatim>\<open>ok = false\<close> exactly when the
  channel is closed and empty; on an empty channel that is not closed it blocks; otherwise
  it returns the oldest buffered task with \<^verbatim>\<open>ok = true\<close> and removes it. In every run
  of the Go program a worker is told that no task is left only after the close has been
  issued and every task of the preload has been delivered. The Java \<^verbatim>\<open>getTask\<close> never
  blocks and returns null exactly when the queue is empty, whether or not the producer has
  finished; otherwise it returns the oldest task and removes it.
\<close>

theorem dequeue_contract:
  "((\<exists>t q'. GetTask q = Returns ((t, False), q')) \<longleftrightarrow> closed q \<and> buf q = [])
   \<and> (buf q = [] \<and> \<not> closed q \<longrightarrow> GetTask q = Blocks)
   \<and> (\<forall>t ts. buf q = t # ts \<longrightarrow> GetTask q = Returns ((t, True), q\<lparr>buf := ts\<rparr>))
   \<and> (DeqClosed w \<in> set (trace cfg init es) \<longrightarrow>
        Cls \<in> set (trace cfg init es) \<and> buf (taskQueue (run cfg init es)) = []
        \<and> map snd (deqs (trace cfg init es)) = preload_seq (nat (sint (NUM_TASKS cfg))))
   \<and> (fst (Java_getTask jq) = None \<longleftrightarrow> jq = [])
   \<and> (\<forall>t ts. jq = t # ts \<longrightarrow> Java_getTask jq = (Some t, ts))"
proof -
  have go: "((\<exists>t q'. GetTask q = Returns ((t, False), q')) \<longleftrightarrow> closed q \<and> buf q = [])
   \<and> (buf q = [] \<and> \<not> closed q \<longrightarrow> GetTask q = Blocks)
   \<and> (\<forall>t ts. buf q = t # ts \<longrightarrow> GetTask q = Returns ((t, True), q\<lparr>buf := ts\<rparr>))"
    by (auto simp add: GetTask_def chan_recv_def split: list.splits)
  have java: "(fst (Java_getTask jq) = None \<longleftrightarrow> jq = [])
   \<and> (\<forall>t ts. jq = t # ts \<longrightarrow> Java_getTask jq = (Some t, ts))"
    by (auto simp add: Java_getTask_def split: list.splits)
  have sys: "Cls \<in> set (trace cfg init es) \<and> buf (taskQueue (run cfg init es)) = []
        \<and> map snd (deqs (trace cfg init es)) = preload_seq (nat (sint (NUM_TASKS cfg)))"
    if "DeqClosed w \<in> set (trace cfg init es)"
  proof -
    define tr where "tr = trace cfg init es"
    define s where "s = run cfg init es"
    have i: "inv cfg tr s" unfolding tr_def s_def by (rule inv_run)
    from that have "drains tr \<noteq> []" unfolding tr_def by (rule drains_member)
    then have cl: "closed (taskQueue s)" and b: "buf (taskQueue s) = []"
      using inv_parts(15) [OF i] by (simp_all add: inv_drained_def)
    from cl have c: "Cls \<in> set tr" using inv_parts(5) [OF i] by (simp add: inv_marks_def)
    from cl have "closer s \<noteq> CAbsent" using inv_parts(4) [OF i] by (auto simp add: inv_done_def)
    then have "length (enqs tr) = nat (sint (NUM_TASKS cfg))"
      using inv_parts(4) [OF i] by (simp add: inv_done_def)
    moreover have "enqs tr = preload_seq (length (enqs tr))"
      using inv_parts(3) [OF i] by (simp add: inv_enq_def)
    moreover have "enqs tr = map snd (deqs tr)"
      using inv_parts(6) [OF i] b by (simp add: inv_fifo_def)
    ultimately have "map snd (deqs tr) = preload_seq (nat (sint (NUM_TASKS cfg)))"
      by (simp only:)
    with c b show ?thesis unfolding tr_def s_def by (intro conjI)
  qed
  from go java sys show ?thesis by blast
qed

theorem dequeue_contract_witness:
  "GetTask \<lparr>buf = [], cap = 1, closed = False\<rparr> = Blocks
   \<and> GetTask \<lparr>buf = [preload_task 1], cap = 1, closed = True\<rparr>
       = Returns ((preload_task 1, True), \<lparr>buf = [], cap = 1, closed = True\<rparr>)
   \<and> (\<exists>t q'. GetTask \<lparr>buf = [], cap = 1, closed = True\<rparr> = Returns ((t, False), q'))
   \<and> DeqClosed 1 \<in> set (trace demo_config init (demo_prefix @ demo_rest))
   \<and> Cls \<in> set (trace demo_config init (demo_prefix @ demo_rest))"
proof -
  have a: "GetTask \<lparr>buf = [], cap = 1, closed = False\<rparr> = Blocks"
    using dequeue_contract [of "\<lparr>buf = [], cap = 1, closed = False\<rparr>"] by simp
  have b: "GetTask \<lparr>buf = [preload_task 1], cap = 1, closed = True\<rparr>
       = Returns ((preload_task 1, True), \<lparr>buf = [], cap = 1, closed = True\<rparr>)"
    using dequeue_contract [of "\<lparr>buf = [preload_task 1], cap = 1, closed = True\<rparr>"] by simp
  have c: "\<exists>t q'. GetTask \<lparr>buf = [], cap = 1, closed = True\<rparr> = Returns ((t, False), q')"
    using dequeue_contract [of "\<lparr>buf = [], cap = 1, closed = True\<rparr>"] by simp
  have d: "DeqClosed 1 \<in> set (trace demo_config init (demo_prefix @ demo_rest))" by code_simp
  from dequeue_contract [where w = 1 and cfg = demo_config and es = "demo_prefix @ demo_rest"] d
  have e: "Cls \<in> set (trace demo_config init (demo_prefix @ demo_rest))" by blast
  from a b c d e show ?thesis by (intro conjI)
qed

text \<open>
  Claim C4. In every run, whatever the numbers of workers and tasks, no task id is delivered
  twice, so each enqueued task goes to at most one worker; the result file holds exactly
  the lines of the tasks written, each of which was delivered before, and the task ids
  of these lines are pairwise different and lie between 1 and the number of tasks.
\<close>

theorem no_duplicate_delivery:
  "distinct (map (\<lambda>p. ID (snd p)) (deqs (trace cfg init es)))
   \<and> mset (emits (trace cfg init es)) \<subseteq># mset (deqs (trace cfg init es))
   \<and> content (rw_file (resultWriter (run cfg init es))) = map result_entry (emits (trace cfg init es))
   \<and> distinct (map (\<lambda>p. ID (snd p)) (emits (trace cfg init es)))
   \<and> (\<forall>p \<in> set (emits (trace cfg init es)).
         1 \<le> sint (ID (snd p)) \<and> sint (ID (snd p)) \<le> sint (NUM_TASKS cfg))"
proof -
  define tr where "tr = trace cfg init es"
  define s where "s = run cfg init es"
  have i: "inv cfg tr s" unfolding tr_def s_def by (rule inv_run)
  have d: "distinct (map (\<lambda>p. ID (snd p)) (deqs tr))" using i by (rule distinct_deq_ids)
  have sub: "mset (emits tr) \<subseteq># mset (deqs tr)" using i by (rule emits_sub_deqs)
  have c: "content (rw_file (resultWriter s)) = map result_entry (emits tr)"
    using inv_parts(10) [OF i] by (simp add: inv_results_def)
  have "mset (map (\<lambda>p. ID (snd p)) (emits tr)) \<subseteq># mset (map (\<lambda>p. ID (snd p)) (deqs tr))"
    using sub by (simp add: image_mset_subseteq_mono)
  then have de: "distinct (map (\<lambda>p. ID (snd p)) (emits tr))" using d by (rule distinct_submset)
  have r: "1 \<le> sint (ID (snd p)) \<and> sint (ID (snd p)) \<le> sint (NUM_TASKS cfg)"
    if "p \<in> set (emits tr)" for p
  proof -
    from sub have "set_mset (mset (emits tr)) \<subseteq> set_mset (mset (deqs tr))"
      by (rule set_mset_mono)
    with that have "p \<in> set (deqs tr)" by auto
    with i show ?thesis by (rule deq_task_range [THEN conjunct2])
  qed
  then have r': "\<forall>p \<in> set (emits tr).
      1 \<le> sint (ID (snd p)) \<and> sint (ID (snd p)) \<le> sint (NUM_TASKS cfg)" by blast
  have "distinct (map (\<lambda>p. ID (snd p)) (deqs tr))
   \<and> mset (emits tr) \<subseteq># mset (deqs tr)
   \<and> content (rw_file (resultWriter s)) = map result_entry (emits tr)
   \<and> distinct (map (\<lambda>p. ID (snd p)) (emits tr))
   \<and> (\<forall>p \<in> set (emits tr).
         1 \<le> sint (ID (snd p)) \<and> sint (ID (snd p)) \<le> sint (NUM_TASKS cfg))"
    using d sub c de r' by (intro conjI)
  then show ?thesis unfolding tr_def s_def .
qed

theorem no_duplicate_delivery_witness:
  "emits (trace demo_config init (demo_prefix @ demo_rest)) = [(1, preload_task 1)]
   \<and> content (rw_file (resultWriter (run demo_config init (demo_prefix @ demo_rest))))
       = map result_entry [(1, preload_task 1)]
   \<and> 1 \<le> sint (ID (preload_task 1))
   \<and> sint (ID (preload_task 1)) \<le> sint (NUM_TASKS demo_config)"
proof -
  have e: "emits (trace demo_config init (demo_prefix @ demo_rest)) = [(1, preload_task 1)]"
    by code_simp
  have "(1, preload_task 1) \<in> set (emits (trace demo_config init (demo_prefix @ demo_rest)))"
    by (simp only: e) simp
  with no_duplicate_delivery [of demo_config "demo_prefix @ demo_rest"]
  have "1 \<le> sint (ID (snd (1 :: goint, preload_task 1)))
    \<and> sint (ID (snd (1 :: goint, preload_task 1))) \<le> sint (NUM_TASKS demo_config)"
    by blast
  moreover from no_duplicate_delivery [of demo_config "demo_prefix @ demo_rest"]
  have "content (rw_file (resultWriter (run demo_config init (demo_prefix @ demo_rest))))
       = map result_entry (emits (trace demo_config init (demo_prefix @ demo_rest)))"
    by blast
  ultimately show ?thesis using e by (simp only: snd_conv)
qed



text \<open>
  Claim C6. The computation applies \<open>processedValue = value * 2 + id\<close> to every task, in
  the arithmetic of Go's \<^verbatim>\<open>int\<close>: the result is the line with this value, and the value
  is the integer \<open>value * 2 + id\<close> whenever that fits 64 bits. With one task and one worker
  the task is \<open>{id = 1, value = 100}\<close>, and when the run has ended without a failed
  write the result file holds exactly one line, with \<open>Processed: 201\<close>.
\<close>

theorem transform_and_single_task:
  "fst (processTask w t)
     = ''Task '' @ fmt_d (ID t) @ '' processed by Worker-'' @ fmt_d (Worker_ID w)
       @ '' | Original: '' @ fmt_d (DataValue t)
       @ '' | Processed: '' @ fmt_d (DataValue t * 2 + ID t)
   \<and> (- (2^63) \<le> sint (DataValue t) * 2 + sint (ID t) \<and> sint (DataValue t) * 2 + sint (ID t) < 2^63
        \<longrightarrow> sint (DataValue t * 2 + ID t) = sint (DataValue t) * 2 + sint (ID t))
   \<and> (NUM_TASKS cfg = 1 \<and> NUM_WORKERS cfg = 1 \<and> mpc (run cfg init es) = MExit
        \<and> efails (trace cfg init es) = [] \<longrightarrow>
        enqs (trace cfg init es) = [\<lparr>ID = 1, Description = ''Process data item 1'', DataValue = 100\<rparr>]
        \<and> content (rw_file (resultWriter (run cfg init es)))
            = [''Task 1 processed by Worker-1 | Original: 100 | Processed: 201\<newline>''])"
proof -
  have a: "fst (processTask w t)
     = ''Task '' @ fmt_d (ID t) @ '' processed by Worker-'' @ fmt_d (Worker_ID w)
       @ '' | Original: '' @ fmt_d (DataValue t)
       @ '' | Processed: '' @ fmt_d (DataValue t * 2 + ID t)"
    by (simp add: processTask_def)
  have b: "- (2^63) \<le> sint (DataValue t) * 2 + sint (ID t) \<and> sint (DataValue t) * 2 + sint (ID t) < 2^63
        \<longrightarrow> sint (DataValue t * 2 + ID t) = sint (DataValue t) * 2 + sint (ID t)"
    using sint_transform by blast
  have c: "enqs (trace cfg init es) = [\<lparr>ID = 1, Description = ''Process data item 1'', DataValue = 100\<rparr>]
        \<and> content (rw_file (resultWriter (run cfg init es)))
            = [''Task 1 processed by Worker-1 | Original: 100 | Processed: 201\<newline>'']"
    if T: "NUM_TASKS cfg = 1" and N: "NUM_WORKERS cfg = 1" and m: "mpc (run cfg init es) = MExit"
      and f: "efails (trace cfg init es) = []"
  proof -
    define tr where "tr = trace cfg init es"
    define s where "s = run cfg init es"
    have i: "inv cfg tr s" unfolding tr_def s_def by (rule inv_run)
    have "sint (NUM_WORKERS cfg) < 2^63 - 1" by (simp add: N)
    then have ids: "inv_ids cfg s" unfolding s_def by (rule inv_ids_run)
    have fin: "finished_pc (mpc s)" using m by (simp add: s_def)
    then have "closer s \<noteq> CAbsent" using inv_parts(4) [OF i] by (simp add: inv_done_def)
    then have len: "length (workers s) = 1" using ids by (simp add: inv_ids_def N)
    then have wid: "map Worker_ID (workers s) = [1]"
      using ids by (simp add: inv_ids_def ids_upto_Suc [of 0, simplified])
    from len have ne: "workers s \<noteq> []" by auto
    have p1: "preload_seq (nat (sint (NUM_TASKS cfg))) = [preload_task 1]"
      by (simp add: T preload_seq_Suc [of 0, simplified])
    have dq: "map snd (deqs tr) = [preload_task 1]"
      using run_ended(2) [OF i fin ne] p1 by simp
    then obtain x where x: "deqs tr = [(x, preload_task 1)]"
      by (cases "deqs tr") auto
    have "x \<in> Worker_ID ` set (workers s)"
      using inv_parts(14) [OF i] x by (simp add: inv_deq_ids_def)
    then have "x \<in> set (map Worker_ID (workers s))" by simp
    then have "x = 1" by (simp only: wid) simp
    with x have d1: "deqs tr = [(1, preload_task 1)]" by simp
    have "mset (deqs tr) = mset (emits tr)"
      using run_ended(1) [OF i fin] f by (simp add: tr_def)
    then have em: "emits tr = [(1, preload_task 1)]" by (simp add: d1)
    have en: "enqs tr = [preload_task 1]"
      using inv_parts(3,4) [OF i] ne p1 by (simp add: inv_enq_def inv_done_def)
    have l: "result_entry (1, preload_task 1)
        = ''Task 1 processed by Worker-1 | Original: 100 | Processed: 201\<newline>''"
      by code_simp
    have t1: "preload_task 1 = \<lparr>ID = 1, Description = ''Process data item 1'', DataValue = 100\<rparr>"
      by code_simp
    have "content (rw_file (resultWriter s)) = map result_entry (emits tr)"
      using inv_parts(10) [OF i] by (simp add: inv_results_def)
    then have "content (rw_file (resultWriter s))
        = [''Task 1 processed by Worker-1 | Original: 100 | Processed: 201\<newline>'']"
      by (simp only: em l list.map)
    with en t1 show ?thesis by (simp only: tr_def s_def)
  qed
  from a b c show ?thesis by blast
qed

theorem transform_and_single_task_witness:
  "NUM_TASKS demo_config = 1 \<and> NUM_WORKERS demo_config = 1
   \<and> mpc (run demo_config init (demo_prefix @ demo_rest)) = MExit
   \<and> efails (trace demo_config init (demo_prefix @ demo_rest)) = []
   \<and> content (rw_file (resultWriter (run demo_config init (demo_prefix @ demo_rest))))
       = [''Task 1 processed by Worker-1 | Original: 100 | Processed: 201\<newline>'']
   \<and> sint (DataValue (preload_task 1) * 2 + ID (preload_task 1)) = 201"
proof -
  have c: "NUM_TASKS demo_config = 1 \<and> NUM_WORKERS demo_config = 1"
    by (simp add: demo_config_def)
  have m: "mpc (run demo_config init (demo_prefix @ demo_rest)) = MExit" by code_simp
  have f: "efails (trace demo_config init (demo_prefix @ demo_rest)) = []" by code_simp
  have v: "sint (DataValue (preload_task 1)) = 100 \<and> sint (ID (preload_task 1)) = 1"
    by (simp add: preload_task_def)
  note t = transform_and_single_task [of _ "preload_task 1" demo_config "demo_prefix @ demo_rest"]
  from t c m f
  have r: "content (rw_file (resultWriter (run demo_config init (demo_prefix @ demo_rest))))
       = [''Task 1 processed by Worker-1 | Original: 100 | Processed: 201\<newline>'']"
    by blast
  from t v have "sint (DataValue (preload_task 1) * 2 + ID (preload_task 1)) = 100 * 2 + 1"
    by simp
  with c m f r show ?thesis by simp
qed

text \<open>
  Claim C7. In every run, every entry of the result file is the line
  \<^verbatim>\<open>Task <id> processed by Worker-<workerId> | Original: <value> | Processed: <processedValue>\<close>
  followed by a newline, where the task is one that \<^verbatim>\<open>main\<close> enqueued, the worker is
  one of the workers and is the one the task was delivered to, and the processed value is
  \<open>value * 2 + id\<close>.
\<close>

theorem result_line_format:
  "\<forall>entry \<in> set (content (rw_file (resultWriter (run cfg init es)))).
     \<exists>w t. w \<in> set (workers (run cfg init es)) \<and> t \<in> set (enqs (trace cfg init es))
       \<and> (Worker_ID w, t) \<in> set (deqs (trace cfg init es))
       \<and> entry = ''Task '' @ fmt_d (ID t) @ '' processed by Worker-'' @ fmt_d (Worker_ID w)
                  @ '' | Original: '' @ fmt_d (DataValue t)
                  @ '' | Processed: '' @ fmt_d (DataValue t * 2 + ID t) @ ''\<newline>''"
proof
  fix entry
  define tr where "tr = trace cfg init es"
  define s where "s = run cfg init es"
  assume "entry \<in> set (content (rw_file (resultWriter (run cfg init es))))"
  then have m: "entry \<in> set (content (rw_file (resultWriter s)))" by (simp add: s_def)
  have i: "inv cfg tr s" unfolding tr_def s_def by (rule inv_run)
  have "content (rw_file (resultWriter s)) = map result_entry (emits tr)"
    using inv_parts(10) [OF i] by (simp add: inv_results_def)
  with m obtain p where p: "p \<in> set (emits tr)" and e: "entry = result_entry p" by auto
  have "set_mset (mset (emits tr)) \<subseteq> set_mset (mset (deqs tr))"
    using emits_sub_deqs [OF i] by (rule set_mset_mono)
  with p have d: "p \<in> set (deqs tr)" by auto
  then have "fst p \<in> Worker_ID ` set (workers s)"
    using inv_parts(14) [OF i] by (simp add: inv_deq_ids_def)
  then obtain w where w: "w \<in> set (workers s)" "Worker_ID w = fst p" by auto
  have t: "snd p \<in> set (enqs tr)" using deq_task_range [OF i d] by simp
  have "(Worker_ID w, snd p) \<in> set (deqs tr)" using d w(2) by simp
  moreover have "entry = ''Task '' @ fmt_d (ID (snd p)) @ '' processed by Worker-'' @ fmt_d (Worker_ID w)
                  @ '' | Original: '' @ fmt_d (DataValue (snd p))
                  @ '' | Processed: '' @ fmt_d (DataValue (snd p) * 2 + ID (snd p)) @ ''\<newline>''"
    using e w(2) by (simp add: result_entry_def result_line_def)
  ultimately show "\<exists>w t. w \<in> set (workers (run cfg init es)) \<and> t \<in> set (enqs (trace cfg init es))
       \<and> (Worker_ID w, t) \<in> set (deqs (trace cfg init es))
       \<and> entry = ''Task '' @ fmt_d (ID t) @ '' processed by Worker-'' @ fmt_d (Worker_ID w)
                  @ '' | Original: '' @ fmt_d (DataValue t)
                  @ '' | Processed: '' @ fmt_d (DataValue t * 2 + ID t) @ ''\<newline>''"
    using w(1) t unfolding tr_def s_def by blast
qed

theorem result_line_format_witness:
  "''Task 1 processed by Worker-1 | Original: 100 | Processed: 201\<newline>''
     \<in> set (content (rw_file (resultWriter (run demo_config init (demo_prefix @ demo_rest)))))
   \<and> (\<exists>w t. w \<in> set (workers (run demo_config init (demo_prefix @ demo_rest)))
        \<and> t \<in> set (enqs (trace demo_config init (demo_prefix @ demo_rest)))
        \<and> (Worker_ID w, t) \<in> set (deqs (trace demo_config init (demo_prefix @ demo_rest)))
        \<and> ''Task 1 processed by Worker-1 | Original: 100 | Processed: 201\<newline>''
            = ''Task '' @ fmt_d (ID t) @ '' processed by Worker-'' @ fmt_d (Worker_ID w)
              @ '' | Original: '' @ fmt_d (DataValue t)
              @ '' | Processed: '' @ fmt_d (DataValue t * 2 + ID t) @ ''\<newline>'')"
proof -
  have m: "''Task 1 processed by Worker-1 | Original: 100 | Processed: 201\<newline>''
     \<in> set (content (rw_file (resultWriter (run demo_config init (demo_prefix @ demo_rest)))))"
    by code_simp
  from result_line_format [of demo_config "demo_prefix @ demo_rest"] m
  show ?thesis by blast
qed

text \<open>
  Claim C8. In every run the tasks enqueued so far are the first tasks of the preload
  sequence, at most \<^verbatim>\<open>NUM_TASKS\<close> of them, and they are what has been delivered followed
  by what the queue holds; during preload the queue holds exactly them. When
  \<^verbatim>\<open>preloadTasks\<close> has returned, the queue holds exactly \<^verbatim>\<open>NUM_TASKS\<close> tasks, with the
  ids 1, 2, ..., \<^verbatim>\<open>NUM_TASKS\<close> in this order, and nothing has been delivered yet. The ids
  are positive and pairwise different, and each task has the value \<open>id * 100\<close> (in the
  arithmetic of Go's \<^verbatim>\<open>int\<close>).
\<close>

theorem preload_enqueues:
  "enqs (trace cfg init es) = preload_seq (length (enqs (trace cfg init es)))
   \<and> length (enqs (trace cfg init es)) \<le> nat (sint (NUM_TASKS cfg))
   \<and> enqs (trace cfg init es)
       = map snd (deqs (trace cfg init es)) @ buf (taskQueue (run cfg init es))
   \<and> (preload_pc (mpc (run cfg init es)) \<longrightarrow>
        buf (taskQueue (run cfg init es)) = enqs (trace cfg init es))
   \<and> (mpc (run cfg init es) = MStartLog \<longrightarrow>
        enqs (trace cfg init es) = preload_seq (nat (sint (NUM_TASKS cfg)))
        \<and> deqs (trace cfg init es) = []
        \<and> buf (taskQueue (run cfg init es)) = preload_seq (nat (sint (NUM_TASKS cfg)))
        \<and> map (\<lambda>t. sint (ID t)) (buf (taskQueue (run cfg init es)))
            = map int [1..<Suc (nat (sint (NUM_TASKS cfg)))])
   \<and> map (\<lambda>t. sint (ID t)) (enqs (trace cfg init es))
        = map int [1..<Suc (length (enqs (trace cfg init es)))]
   \<and> distinct (map ID (enqs (trace cfg init es)))
   \<and> (\<forall>t \<in> set (enqs (trace cfg init es)). 0 < sint (ID t) \<and> DataValue t = ID t * 100)"
proof -
  define tr where "tr = trace cfg init es"
  define s where "s = run cfg init es"
  define n where "n = length (enqs tr)"
  have i: "inv cfg tr s" unfolding tr_def s_def by (rule inv_run)
  have e: "enqs tr = preload_seq n" and le: "n \<le> nat (sint (NUM_TASKS cfg))"
    using inv_parts(3) [OF i] by (simp_all add: inv_enq_def n_def)
  have n: "n < 2^63" using le nat_sint_less by (rule order.strict_trans1)
  have ff: "enqs tr = map snd (deqs tr) @ buf (taskQueue s)"
    using inv_parts(6) [OF i] by (simp add: inv_fifo_def)
  have pre: "preload_pc (mpc s) \<longrightarrow> buf (taskQueue s) = enqs tr"
    using inv_parts(1) [OF i] by (simp add: inv_early_def)
  have ids: "map ID (enqs tr) = ids_upto n" by (subst e) (rule ID_preload_seq)
  have sids: "map (\<lambda>t. sint (ID t)) (enqs tr) = map int [1..<Suc n]"
    using arg_cong [OF ids, of "map sint"] sint_ids_upto [OF n] by (simp add: comp_def)
  have fin: "mpc s = MStartLog \<longrightarrow>
        enqs tr = preload_seq (nat (sint (NUM_TASKS cfg)))
        \<and> deqs tr = []
        \<and> buf (taskQueue s) = preload_seq (nat (sint (NUM_TASKS cfg)))
        \<and> map (\<lambda>t. sint (ID t)) (buf (taskQueue s)) = map int [1..<Suc (nat (sint (NUM_TASKS cfg)))]"
  proof
    assume m: "mpc s = MStartLog"
    then have nn: "n = nat (sint (NUM_TASKS cfg))"
      using inv_parts(4) [OF i] by (simp add: inv_done_def n_def)
    then have e': "enqs tr = preload_seq (nat (sint (NUM_TASKS cfg)))" using e by (simp only:)
    have "workers s = []" using inv_parts(4) [OF i] m by (simp add: inv_done_def)
    with i have dq: "deqs tr = []" by (rule no_worker_no_deq)
    with ff have b: "buf (taskQueue s) = enqs tr" by simp
    have "map (\<lambda>t. sint (ID t)) (buf (taskQueue s)) = map int [1..<Suc (nat (sint (NUM_TASKS cfg)))]"
      using sids by (simp only: b nn)
    with e' dq b show "enqs tr = preload_seq (nat (sint (NUM_TASKS cfg)))
        \<and> deqs tr = []
        \<and> buf (taskQueue s) = preload_seq (nat (sint (NUM_TASKS cfg)))
        \<and> map (\<lambda>t. sint (ID t)) (buf (taskQueue s)) = map int [1..<Suc (nat (sint (NUM_TASKS cfg)))]"
      by (simp only:)
  qed
  have dist: "distinct (map ID (enqs tr))" using ids distinct_ids_upto [OF n] by simp
  have pos: "0 < sint (ID t) \<and> DataValue t = ID t * 100" if "t \<in> set (enqs tr)" for t
  proof -
    from that have "sint (ID t) \<in> set (map (\<lambda>t. sint (ID t)) (enqs tr))" by auto
    then have "sint (ID t) \<in> set (map int [1..<Suc n])" by (simp only: sids)
    then have "0 < sint (ID t)" by auto
    moreover have "DataValue t = ID t * 100"
      using that e DataValue_preload_seq by simp
    ultimately show ?thesis by simp
  qed
  then have pos': "\<forall>t \<in> set (enqs tr). 0 < sint (ID t) \<and> DataValue t = ID t * 100" by blast
  have "enqs tr = preload_seq (length (enqs tr))" using e by (simp only: n_def)
  moreover have "length (enqs tr) \<le> nat (sint (NUM_TASKS cfg))" using le by (simp only: n_def)
  moreover have "map (\<lambda>t. sint (ID t)) (enqs tr) = map int [1..<Suc (length (enqs tr))]"
    using sids by (simp only: n_def)
  ultimately show ?thesis
    using ff pre fin dist pos' unfolding tr_def s_def by (intro conjI)
qed

theorem preload_enqueues_witness:
  "mpc (run reference_config init reference_preload) = MStartLog
   \<and> buf (taskQueue (run reference_config init reference_preload)) = preload_seq 20
   \<and> enqs (trace reference_config init reference_preload) = preload_seq 20
   \<and> map (\<lambda>t. sint (ID t)) (buf (taskQueue (run reference_config init reference_preload)))
       = [1, 2, 3, 4, 5, 6, 7, 8, 9, 10, 11, 12, 13, 14, 15, 16, 17, 18, 19, 20]
   \<and> map (\<lambda>t. sint (DataValue t)) (buf (taskQueue (run reference_config init reference_preload)))
       = [100, 200, 300, 400, 500, 600, 700, 800, 900, 1000,
          1100, 1200, 1300, 1400, 1500, 1600, 1700, 1800, 1900, 2000]
   \<and> preload_task 20 \<in> set (enqs (trace reference_config init reference_preload))
   \<and> 0 < sint (ID (preload_task 20))
   \<and> DataValue (preload_task 20) = ID (preload_task 20) * 100"
proof -
  have m: "mpc (run reference_config init reference_preload) = MStartLog" by code_simp
  have t: "preload_task 20 \<in> set (enqs (trace reference_config init reference_preload))"
    by code_simp
  have n: "nat (sint (NUM_TASKS reference_config)) = 20" by (simp add: reference_config_def)
  have p: "map (\<lambda>t. sint (ID t)) (preload_seq 20)
       = [1, 2, 3, 4, 5, 6, 7, 8, 9, 10, 11, 12, 13, 14, 15, 16, 17, 18, 19, 20]"
    by code_simp
  have v: "map (\<lambda>t. sint (DataValue t)) (preload_seq 20)
       = [100, 200, 300, 400, 500, 600, 700, 800, 900, 1000,
          1100, 1200, 1300, 1400, 1500, 1600, 1700, 1800, 1900, 2000]"
    by code_simp
  from preload_enqueues [of reference_config reference_preload] m
  have "enqs (trace reference_config init reference_preload)
      = preload_seq (nat (sint (NUM_TASKS reference_config)))
    \<and> buf (taskQueue (run reference_config init reference_preload))
      = preload_seq (nat (sint (NUM_TASKS reference_config)))" by blast
  then have e: "enqs (trace reference_config init reference_preload) = preload_seq 20"
    and b: "buf (taskQueue (run reference_config init reference_preload)) = preload_seq 20"
    by (simp_all only: n)
  from preload_enqueues [of reference_config reference_preload] t
  have "0 < sint (ID (preload_task 20)) \<and> DataValue (preload_task 20) = ID (preload_task 20) * 100"
    by blast
  with m e b p v t show ?thesis by (intro conjI) (simp_all only:)
qed

text \<open>
  Claim C9. In the Go implementation \<^verbatim>\<open>processTask\<close> returns a nil error for every task.
  Hence in every run no computation fails and no worker is ever at the point that logs a
  failed computation; the step of a worker that computes always leads to the write of the
  result; and every task that has been delivered has been written, or its write has failed,
  or a worker holds it on its way to the write.
\<close>

theorem compute_never_fails:
  "snd (processTask w t) = None
   \<and> cfails (trace cfg init es) = []
   \<and> (\<forall>w \<in> set (workers (run cfg init es)). \<forall>t err. wpc w \<noteq> WComputeErrLog t err)
   \<and> (k < length (workers s) \<and> wpc (workers s ! k) = WCompute t \<longrightarrow>
        (\<exists>r. wpc (workers (snd (worker_step e k s)) ! k) = WEmit t r))
   \<and> mset (deqs (trace cfg init es))
       = mset (emits (trace cfg init es)) + mset (efails (trace cfg init es))
         + holding (workers (run cfg init es))"
proof -
  have i: "inv cfg (trace cfg init es) (run cfg init es)" by (rule inv_run)
  have a: "snd (processTask w t) = None" by (simp add: processTask_def)
  have b: "cfails (trace cfg init es) = []"
    using inv_parts(8) [OF i] by (simp add: inv_nocfail_def)
  have c: "\<forall>w \<in> set (workers (run cfg init es)). \<forall>t err. wpc w \<noteq> WComputeErrLog t err"
    using inv_parts(8) [OF i] by (auto simp add: inv_nocfail_def in_set_conv_nth)
  have d: "k < length (workers s) \<and> wpc (workers s ! k) = WCompute t \<longrightarrow>
        (\<exists>r. wpc (workers (snd (worker_step e k s)) ! k) = WEmit t r)"
    by (simp add: worker_defs')
  have f: "mset (deqs (trace cfg init es))
       = mset (emits (trace cfg init es)) + mset (efails (trace cfg init es))
         + holding (workers (run cfg init es))"
    using inv_parts(9) [OF i] b by (simp add: inv_acct_def)
  from a b c d f show ?thesis by (intro conjI)
qed

theorem compute_never_fails_witness:
  "0 < length (workers (run demo_config init demo_computing))
   \<and> wpc (workers (run demo_config init demo_computing) ! 0) = WCompute (preload_task 1)
   \<and> (\<exists>r. wpc (workers (snd (worker_step (tick (Wrk 0)) 0 (run demo_config init demo_computing))) ! 0)
          = WEmit (preload_task 1) r)"
proof -
  have k: "0 < length (workers (run demo_config init demo_computing))" by code_simp
  have p: "wpc (workers (run demo_config init demo_computing) ! 0) = WCompute (preload_task 1)"
    by code_simp
  from compute_never_fails [where k = 0 and s = "run demo_config init demo_computing"
      and t = "preload_task 1" and e = "tick (Wrk 0)"] k p
  show ?thesis by blast
qed

text \<open>
  Claim C10. \<^verbatim>\<open>Logger.Log\<close> has no result, so it reports nothing to its caller: when the
  write of the entry fails, the log file is left as it was, the error is printed to
  standard error, and the caller's state is what it would be after a successful call;
  a step that logs changes nothing but the logger and standard error.
  \<^verbatim>\<open>ResultWriter.WriteResult\<close>, on the same failure, returns the wrapped error.
\<close>

theorem log_swallows_write_error:
  "(\<not> fclosed (log_file l) \<longrightarrow>
      Log timestamp (Some err) l message = (l, [''ERROR: Failed to write log: '' @ err @ ''\<newline>'']))
   \<and> (\<not> fclosed (rw_file rw) \<longrightarrow>
      WriteResult (Some err) rw result = (Some (''failed to write result: '' @ err), rw))
   \<and> (sys_Log e message s)\<lparr>logger := logger s, stderr := stderr s\<rparr> = s"
  by (simp add: Log_def WriteResult_def file_Write_def sys_Log_def split: prod.split)

theorem log_swallows_write_error_witness:
  "Log ''2025-01-01 12:00:00.000'' (Some ''disk full'') \<lparr>log_file = os_Create\<rparr> ''Worker-1 started''
     = (\<lparr>log_file = os_Create\<rparr>, [''ERROR: Failed to write log: disk full\<newline>''])
   \<and> WriteResult (Some ''disk full'') \<lparr>rw_file = os_Create\<rparr> ''Task 1''
     = (Some ''failed to write result: disk full'', \<lparr>rw_file = os_Create\<rparr>)"
proof -
  have o: "\<not> fclosed (log_file \<lparr>log_file = os_Create\<rparr>) \<and> \<not> fclosed (rw_file \<lparr>rw_file = os_Create\<rparr>)"
    by (simp add: os_Create_def)
  from log_swallows_write_error [of "\<lparr>log_file = os_Create\<rparr>" "''2025-01-01 12:00:00.000''"
      "''disk full''" "''Worker-1 started''" "\<lparr>rw_file = os_Create\<rparr>" "''Task 1''"] o
  show ?thesis by simp
qed

end
